theory Spec2Isabelle
  imports Main "HOL-Library.Sublist"
begin

section \<open>Python strings and the character classes of \<open>re\<close> and \<open>str\<close>\<close>

text \<open>
  A Python \<open>str\<close> is a sequence of Unicode code points, and \<open>len\<close> counts code points.
  The patterns of \<open>_clean_text\<close> contain U+20AC and U+2122, so a string is modelled as a
  list of code points (\<open>nat\<close>), not as a list of 8-bit characters. \<open>ustr\<close> turns an
  Isabelle string literal into such a list.
\<close>

type_synonym ustring = "nat list"

definition ustr :: "string \<Rightarrow> ustring" where
  "ustr s = map of_char s"

text \<open>
  \<open>\s\<close> and \<open>str.strip()\<close> use the same whitespace test (\<open>str.isspace\<close>); its code points
  are a short fixed list.
\<close>

definition isspace :: "nat \<Rightarrow> bool" where
  "isspace c =
     ((9 \<le> c \<and> c \<le> 13) \<or> (28 \<le> c \<and> c \<le> 32) \<or> c = 0x85 \<or> c = 0xA0 \<or> c = 0x1680 \<or>
      (0x2000 \<le> c \<and> c \<le> 0x200A) \<or> c = 0x2028 \<or> c = 0x2029 \<or> c = 0x202F \<or>
      c = 0x205F \<or> c = 0x3000)"

text \<open>
  \<open>\d\<close> (decimal digits) and \<open>\w\<close> (alphanumerics and the underscore) are read from the
  interpreter's Unicode character database, which is not part of the repository. On ASCII
  both classes are fixed; for the code points from 128 on the database is a parameter.
\<close>

record unicode_db =
  uni_decimal :: "nat \<Rightarrow> bool"
  uni_alnum :: "nat \<Rightarrow> bool"

definition is_decimal :: "unicode_db \<Rightarrow> nat \<Rightarrow> bool" where
  "is_decimal U c = (if c < 128 then 48 \<le> c \<and> c \<le> 57 else uni_decimal U c)"

definition is_word :: "unicode_db \<Rightarrow> nat \<Rightarrow> bool" where
  "is_word U c =
     (if c < 128 then (48 \<le> c \<and> c \<le> 57) \<or> (65 \<le> c \<and> c \<le> 90) \<or> (97 \<le> c \<and> c \<le> 122) \<or> c = 95
      else uni_alnum U c)"

text \<open>A database that knows no digit and no letter beyond ASCII, for evaluating ASCII texts.\<close>

definition ascii_db :: unicode_db where
  "ascii_db = \<lparr>uni_decimal = (\<lambda>c. False), uni_alnum = (\<lambda>c. False)\<rparr>"

text \<open>
  Case-insensitive match of one ASCII letter \<open>p\<close> of a pattern against a code point \<open>c\<close>
  (\<open>re.IGNORECASE\<close> on a \<open>str\<close> pattern): the two cases of the letter, and the four
  non-ASCII code points that fold to \<open>i\<close>, \<open>s\<close> and \<open>k\<close>.
\<close>

definition ascii_lower :: "nat \<Rightarrow> nat" where
  "ascii_lower c = (if 65 \<le> c \<and> c \<le> 90 then c + 32 else c)"

definition ignorecase_eq :: "nat \<Rightarrow> nat \<Rightarrow> bool" where
  "ignorecase_eq p c =
     (ascii_lower c = ascii_lower p \<or>
      (ascii_lower p = 105 \<and> (c = 0x130 \<or> c = 0x131)) \<or>
      (ascii_lower p = 115 \<and> c = 0x17F) \<or>
      (ascii_lower p = 107 \<and> c = 0x212A))"

definition strip :: "ustring \<Rightarrow> ustring" where
  "strip s = rev (dropWhile isspace (rev (dropWhile isspace s)))"

fun join_sp :: "ustring list \<Rightarrow> ustring" where
  "join_sp [] = []"
| "join_sp [x] = x"
| "join_sp (x # y # r) = x @ [32] @ join_sp (y # r)"

section \<open>Regular-expression substitution and splitting\<close>

text \<open>
  A matcher stands for one compiled pattern: given the code point before the current
  position (for \<open>\b\<close> and look-behind) and the text from the current position on, it
  returns the length of the match that starts here, if there is one. \<open>re_sub\<close> and
  \<open>re_split\<close> scan from the left, take the first match, and go on after it. No pattern of
  the program matches the empty string, so a match of length 0 is treated as no match.
\<close>

type_synonym matcher = "nat option \<Rightarrow> ustring \<Rightarrow> nat option"

function re_sub :: "matcher \<Rightarrow> ustring \<Rightarrow> nat option \<Rightarrow> ustring \<Rightarrow> ustring" where
  "re_sub m repl prev [] = []"
| "re_sub m repl prev (c # cs) =
     (case m prev (c # cs) of
        None \<Rightarrow> c # re_sub m repl (Some c) cs
      | Some n \<Rightarrow>
          if n = 0 then c # re_sub m repl (Some c) cs
          else repl @ re_sub m repl (Some (last (take n (c # cs)))) (drop n (c # cs)))"
  by pat_completeness auto
termination
  by (relation "measure (\<lambda>(m, repl, prev, s). length s)") auto

function re_split :: "matcher \<Rightarrow> nat option \<Rightarrow> ustring \<Rightarrow> ustring list" where
  "re_split m prev [] = [[]]"
| "re_split m prev (c # cs) =
     (case m prev (c # cs) of
        None \<Rightarrow> (case re_split m (Some c) cs of [] \<Rightarrow> [[c]] | p # ps \<Rightarrow> (c # p) # ps)
      | Some n \<Rightarrow>
          if n = 0 then (case re_split m (Some c) cs of [] \<Rightarrow> [[c]] | p # ps \<Rightarrow> (c # p) # ps)
          else [] # re_split m (Some (last (take n (c # cs)))) (drop n (c # cs)))"
  by pat_completeness auto
termination
  by (relation "measure (\<lambda>(m, prev, s). length s)") auto

text \<open>\<open>\s+\<close>: the whole run of whitespace that starts here.\<close>

definition rx_spaces :: matcher where
  "rx_spaces prev s = (let n = length (takeWhile isspace s) in if 0 < n then Some n else None)"

text \<open>\<open>\[\d+\]\<close>: an opening bracket, the whole run of digits, a closing bracket.\<close>

definition rx_citation :: "unicode_db \<Rightarrow> matcher" where
  "rx_citation U prev s =
     (case s of
        [] \<Rightarrow> None
      | c # r \<Rightarrow>
          if c = 91
          then (let n = length (takeWhile (is_decimal U) r)
                in if 0 < n \<and> take 1 (drop n r) = [93] then Some (n + 2) else None)
          else None)"

text \<open>A literal pattern, and the alternation \<open>a|b\<close>, which tries \<open>a\<close> first.\<close>

definition rx_literal :: "ustring \<Rightarrow> matcher" where
  "rx_literal lit prev s = (if prefix lit s then Some (length lit) else None)"

definition rx_alt :: "matcher \<Rightarrow> matcher \<Rightarrow> matcher" where
  "rx_alt a b prev s = (case a prev s of Some n \<Rightarrow> Some n | None \<Rightarrow> b prev s)"

text \<open>\<open>\.{3,}\<close>: a run of three or more full stops, taken whole.\<close>

definition rx_dots :: matcher where
  "rx_dots prev s = (let n = length (takeWhile (\<lambda>c. c = 46) s) in if 3 \<le> n then Some n else None)"

text \<open>
  \<open>\b\<close> holds where exactly one of the code points before and after the position is a
  word character; the start and the end of the text count as non-word.
\<close>

definition word_boundary :: "unicode_db \<Rightarrow> nat option \<Rightarrow> ustring \<Rightarrow> bool" where
  "word_boundary U prev s =
     ((case prev of None \<Rightarrow> False | Some q \<Rightarrow> is_word U q) \<noteq>
      (case s of [] \<Rightarrow> False | c # r \<Rightarrow> is_word U c))"

text \<open>
  The pattern \<open>\b{abbr}\.\<close> under \<open>re.IGNORECASE\<close>. The abbreviation is pasted into the
  pattern unescaped: its letters match case-insensitively, and a full stop inside it
  (\<open>i.e\<close>, \<open>Ph.D\<close>) is the regex dot, matching any code point but the newline.
\<close>

definition abbr_char_matches :: "nat \<Rightarrow> nat \<Rightarrow> bool" where
  "abbr_char_matches p c = (if p = 46 then c \<noteq> 10 else ignorecase_eq p c)"

text \<open>\<open>abbr_prefix abbr s\<close>: the text \<open>s\<close> starts with a match of \<open>{abbr}\.\<close>.\<close>

fun abbr_prefix :: "ustring \<Rightarrow> ustring \<Rightarrow> bool" where
  "abbr_prefix [] s = prefix [46] s"
| "abbr_prefix (p # ps) [] = False"
| "abbr_prefix (p # ps) (c # cs) = (if abbr_char_matches p c then abbr_prefix ps cs else False)"

definition rx_abbr :: "unicode_db \<Rightarrow> ustring \<Rightarrow> matcher" where
  "rx_abbr U abbr prev s =
     (if abbr_prefix abbr s
      then if word_boundary U prev s then Some (length abbr + 1) else None
      else None)"

text \<open>
  \<open>(?<=[.!?])\s+(?=[A-Z])\<close>: after a full stop, exclamation or question mark, the whole
  run of whitespace, provided an ASCII capital follows it.
\<close>

definition rx_sentence_end :: matcher where
  "rx_sentence_end prev s =
     (if prev = Some 46 \<or> prev = Some 33 \<or> prev = Some 63
      then (let n = length (takeWhile isspace s)
            in if 0 < n \<and> (case drop n s of [] \<Rightarrow> False | u # r \<Rightarrow> 65 \<le> u \<and> u \<le> 90)
               then Some n else None)
      else None)"

text \<open>
  \<open>\n\s*\n\<close>: a newline, then whitespace up to the last newline of the whitespace run
  that follows (the greedy \<open>\s*\<close> gives back what lies after that newline).
\<close>

definition rx_paragraph_break :: matcher where
  "rx_paragraph_break prev s =
     (case s of
        [] \<Rightarrow> None
      | c # r \<Rightarrow>
          if c = 10
          then (let w = takeWhile isspace r
                in if 10 \<in> set w
                   then Some (1 + (length w - length (takeWhile (\<lambda>d. d \<noteq> 10) (rev w))))
                   else None)
          else None)"

section \<open>The chunking engine of \<open>chroma_setup.py\<close>\<close>

text \<open>
  The fields of \<open>ChromaVectorDatabase\<close> that the chunking methods read. The tokenizer is an
  object of the external \<open>tiktoken\<close> library, or \<open>None\<close> when it could not be loaded; its
  \<open>encode\<close> method is a parameter. The field holds the token list that \<open>encode\<close> returns.
  On some texts \<open>encode\<close> raises instead: the definitions of this section describe the runs
  in which every call of it returns, and a later section follows the source with the
  exception.
\<close>

record chroma_vector_database =
  MAX_TOKENS_PER_CHUNK :: int
  OVERLAP_TOKENS :: int
  tokenizer :: "(ustring \<Rightarrow> nat list) option"

text \<open>The values that \<open>__init__\<close> assigns.\<close>

definition init_database :: "(ustring \<Rightarrow> nat list) option \<Rightarrow> chroma_vector_database" where
  "init_database tk = \<lparr>MAX_TOKENS_PER_CHUNK = 400, OVERLAP_TOKENS = 50, tokenizer = tk\<rparr>"

definition count_tokens :: "chroma_vector_database \<Rightarrow> ustring \<Rightarrow> int" where
  "count_tokens self text =
     (case tokenizer self of
        Some encode \<Rightarrow> int (length (encode text))
      | None \<Rightarrow> int (length text) div 4)"

definition clean_text :: "unicode_db \<Rightarrow> ustring \<Rightarrow> ustring" where
  "clean_text U text =
     (let text = re_sub rx_spaces [32] None text;
          text = re_sub (rx_citation U) [] None text;
          text = re_sub (rx_literal [0xE2, 0x20AC, 0x2122]) [39] None text;
          text = re_sub (rx_alt (rx_literal [0xE2, 0x20AC, 0x153]) (rx_literal [0xE2, 0x20AC]))
                   [34] None text;
          text = re_sub rx_dots (ustr ''...'') None text
      in strip text)"

definition abbreviations :: "ustring list" where
  "abbreviations = map ustr
     [''Mr'', ''Mrs'', ''Ms'', ''Dr'', ''Prof'', ''Sr'', ''Jr'', ''Inc'', ''Ltd'', ''Corp'',
      ''vs'', ''etc'', ''i.e'', ''e.g'', ''a.m'', ''p.m'', ''Ph.D'', ''M.D'',
      ''Gov'', ''Sen'', ''Rep'', ''Pres'', ''VP'', ''CEO'', ''CFO'']"

definition protect_abbreviations :: "unicode_db \<Rightarrow> ustring \<Rightarrow> ustring" where
  "protect_abbreviations U text =
     foldl (\<lambda>text abbr. re_sub (rx_abbr U abbr) (abbr @ ustr ''<DOT>'') None text)
       text abbreviations"

definition restore_dots :: "ustring \<Rightarrow> ustring" where
  "restore_dots part = re_sub (rx_literal (ustr ''<DOT>'')) (ustr ''.'') None part"

definition improved_sentence_split :: "unicode_db \<Rightarrow> ustring \<Rightarrow> ustring list" where
  "improved_sentence_split U text =
     (let text = protect_abbreviations U text;
          sentences = re_split rx_sentence_end None text
      in concat (map (\<lambda>sentence.
           concat (map (\<lambda>part. if strip part \<noteq> [] then [strip (restore_dots part)] else [])
                    (re_split rx_paragraph_break None sentence)))
         sentences))"

text \<open>
  The inner loop over \<open>reversed(current_sentences)\<close>: it takes the reversed buffer and the
  pair \<open>(overlap_sentences, overlap_tokens)\<close>, and stops at the first sentence that does
  not fit.
\<close>

fun overlap_loop ::
  "chroma_vector_database \<Rightarrow> ustring list \<Rightarrow> ustring list \<times> int \<Rightarrow> ustring list \<times> int" where
  "overlap_loop self [] (overlap_sentences, overlap_tokens) = (overlap_sentences, overlap_tokens)"
| "overlap_loop self (sent # rest) (overlap_sentences, overlap_tokens) =
     (let sent_tokens = count_tokens self sent
      in if overlap_tokens + sent_tokens \<le> OVERLAP_TOKENS self
         then overlap_loop self rest (sent # overlap_sentences, overlap_tokens + sent_tokens)
         else (overlap_sentences, overlap_tokens))"

definition overlap_of :: "chroma_vector_database \<Rightarrow> ustring list \<Rightarrow> ustring list \<times> int" where
  "overlap_of self current = overlap_loop self (rev current) ([], 0)"

text \<open>
  The state of the scan over the sentences. \<open>chunks\<close>, \<open>current_sentences\<close> and
  \<open>current_tokens\<close> are the variables of \<open>_smart_chunk_text\<close>; \<open>chunk_sentences\<close> is a
  history variable that the source does not have: it records, for each emitted chunk, the
  sentence buffer the chunk was joined from. Nothing in the scan reads it.
\<close>

record scan_state =
  chunks :: "ustring list"
  current_sentences :: "ustring list"
  current_tokens :: int
  chunk_sentences :: "ustring list list"

definition scan_init :: scan_state where
  "scan_init = \<lparr>chunks = [], current_sentences = [], current_tokens = 0, chunk_sentences = []\<rparr>"

definition scan_step :: "chroma_vector_database \<Rightarrow> scan_state \<Rightarrow> ustring \<Rightarrow> scan_state" where
  "scan_step self st sentence =
     (let sentence_tokens = count_tokens self sentence
      in if sentence_tokens > MAX_TOKENS_PER_CHUNK self then st
         else if current_tokens st + sentence_tokens > MAX_TOKENS_PER_CHUNK self \<and>
                 current_sentences st \<noteq> []
         then (case overlap_of self (current_sentences st) of
                 (overlap_sentences, overlap_tokens) \<Rightarrow>
                   \<lparr>chunks = chunks st @ [join_sp (current_sentences st)],
                    current_sentences = overlap_sentences @ [sentence],
                    current_tokens = overlap_tokens + sentence_tokens,
                    chunk_sentences = chunk_sentences st @ [current_sentences st]\<rparr>)
         else st\<lparr>current_sentences := current_sentences st @ [sentence],
                 current_tokens := current_tokens st + sentence_tokens\<rparr>)"

definition scan :: "chroma_vector_database \<Rightarrow> ustring list \<Rightarrow> scan_state" where
  "scan self sentences = foldl (scan_step self) scan_init sentences"

text \<open>The final chunk is added when the buffer has content.\<close>

definition scan_finish :: "scan_state \<Rightarrow> scan_state" where
  "scan_finish st =
     (if current_sentences st \<noteq> []
      then st\<lparr>chunks := chunks st @ [join_sp (current_sentences st)],
              chunk_sentences := chunk_sentences st @ [current_sentences st]\<rparr>
      else st)"

text \<open>
  \<open>_smart_chunk_text\<close>. The statistics line it prints is left out; it is guarded by
  \<open>if valid_chunks\<close> and changes nothing in a run in which every token count returns.
\<close>

definition smart_chunk_text ::
  "unicode_db \<Rightarrow> chroma_vector_database \<Rightarrow> ustring \<Rightarrow> ustring list" where
  "smart_chunk_text U self text =
     (let text = clean_text U text;
          sentences = improved_sentence_split U text
      in if sentences = [] then []
         else filter (\<lambda>chunk. strip chunk \<noteq> []) (chunks (scan_finish (scan self sentences))))"

text \<open>The sentence buffers of the chunks of a text, read off the history variable.\<close>

definition chunk_buffers ::
  "unicode_db \<Rightarrow> chroma_vector_database \<Rightarrow> ustring \<Rightarrow> ustring list list" where
  "chunk_buffers U self text =
     chunk_sentences (scan_finish (scan self (improved_sentence_split U (clean_text U text))))"

text \<open>The token total of a sentence buffer: the sum that \<open>current_tokens\<close> is meant to hold.\<close>

definition tokens_of :: "chroma_vector_database \<Rightarrow> ustring list \<Rightarrow> int" where
  "tokens_of self b = sum_list (map (count_tokens self) b)"

text \<open>A sentence is oversized when it alone exceeds the chunk limit.\<close>

definition oversized :: "chroma_vector_database \<Rightarrow> ustring \<Rightarrow> bool" where
  "oversized self s = (count_tokens self s > MAX_TOKENS_PER_CHUNK self)"

text \<open>
  \<open>follows_seed self b b'\<close>: the buffer \<open>b'\<close> starts with the overlap seed computed from
  \<open>b\<close> and goes on with at least one more sentence.
\<close>

definition follows_seed :: "chroma_vector_database \<Rightarrow> ustring list \<Rightarrow> ustring list \<Rightarrow> bool" where
  "follows_seed self b b' =
     (\<exists>rest. rest \<noteq> [] \<and> b' = fst (overlap_of self b) @ rest)"

text \<open>
  The normal form that \<open>_clean_text\<close> produces on a text without citation markers: every
  whitespace is a single space with no whitespace next to it, the code points of a
  mis-encoded quote (U+00E2 followed by U+20AC) do not occur, and no run of full stops is
  longer than three.
\<close>

definition single_spaced :: "ustring \<Rightarrow> bool" where
  "single_spaced s =
     ((\<forall>c\<in>set s. isspace c \<longrightarrow> c = 32) \<and> successively (\<lambda>a b. \<not> (isspace a \<and> isspace b)) s)"

definition no_mojibake :: "ustring \<Rightarrow> bool" where
  "no_mojibake s = successively (\<lambda>a b. \<not> (a = 0xE2 \<and> b = 0x20AC)) s"

abbreviation ldr :: "ustring \<Rightarrow> nat" where
  "ldr s \<equiv> length (takeWhile (\<lambda>c. c = 46) s)"

definition dots_ok :: "ustring \<Rightarrow> bool" where
  "dots_ok s = (\<forall>ys. suffix ys s \<longrightarrow> length (takeWhile (\<lambda>c. c = 46) ys) \<le> 3)"

text \<open>
  \<open>has_citation U s\<close>: the citation pattern matches at some position of \<open>s\<close>.
  \<open>cit_char\<close> holds of the code points a match can contain after its opening bracket.
\<close>

fun has_citation :: "unicode_db \<Rightarrow> ustring \<Rightarrow> bool" where
  "has_citation U [] = False"
| "has_citation U (c # cs) =
     (if rx_citation U None (c # cs) = None then has_citation U cs else True)"

definition cit_char :: "unicode_db \<Rightarrow> nat \<Rightarrow> bool" where
  "cit_char U c = (is_decimal U c \<or> c = 93)"

text \<open>
  Three sentences for the fallback token estimate (a quarter of the length): 200 code
  points count as 50 tokens, 1600 code points as 400, and 1605 code points as 401.
\<close>

definition short_sentence :: ustring where
  "short_sentence = ustr ''X'' @ replicate 198 (of_char CHR ''x'') @ ustr ''!''"

definition long_sentence :: ustring where
  "long_sentence = ustr ''Y'' @ replicate 1598 (of_char CHR ''y'') @ ustr ''!''"


section \<open>The chunking engine with the tokenizer's exception\<close>

text \<open>
  \<open>tokenizer.encode\<close> is called with its default arguments, and with these \<open>tiktoken\<close>
  raises \<open>ValueError\<close> on a text that contains a special token of the encoding. No method
  of the chunking engine catches it. The definitions of this section follow the source
  once more with the exception as a value: \<open>Inl\<close> is a raise that leaves the method,
  \<open>Inr\<close> a return. The predicate \<open>raises\<close> says on which texts \<open>encode\<close> raises; where it
  returns, its token list is the one of the \<open>tokenizer\<close> field.
\<close>

datatype error = ValueError

definition count_tokens_raising ::
  "(ustring \<Rightarrow> bool) \<Rightarrow> chroma_vector_database \<Rightarrow> ustring \<Rightarrow> error + int" where
  "count_tokens_raising raises self text =
     (case tokenizer self of
        Some encode \<Rightarrow>
          if raises text then Inl ValueError else Inr (int (length (encode text)))
      | None \<Rightarrow> Inr (int (length text) div 4))"

fun overlap_loop_raising ::
  "(ustring \<Rightarrow> bool) \<Rightarrow> chroma_vector_database \<Rightarrow> ustring list \<Rightarrow> ustring list \<times> int \<Rightarrow>
   error + ustring list \<times> int" where
  "overlap_loop_raising raises self [] (overlap_sentences, overlap_tokens) =
     Inr (overlap_sentences, overlap_tokens)"
| "overlap_loop_raising raises self (sent # rest) (overlap_sentences, overlap_tokens) =
     (case count_tokens_raising raises self sent of
        Inl e \<Rightarrow> Inl e
      | Inr sent_tokens \<Rightarrow>
          if overlap_tokens + sent_tokens \<le> OVERLAP_TOKENS self
          then overlap_loop_raising raises self rest
                 (sent # overlap_sentences, overlap_tokens + sent_tokens)
          else Inr (overlap_sentences, overlap_tokens))"

text \<open>
  One iteration of the loop over the sentences. The count of the sentence is taken first,
  before the size test; the counts of the overlap loop come after the chunk is appended.
\<close>

definition scan_step_raising ::
  "(ustring \<Rightarrow> bool) \<Rightarrow> chroma_vector_database \<Rightarrow> scan_state \<Rightarrow> ustring \<Rightarrow> error + scan_state" where
  "scan_step_raising raises self st sentence =
     (case count_tokens_raising raises self sentence of
        Inl e \<Rightarrow> Inl e
      | Inr sentence_tokens \<Rightarrow>
          if sentence_tokens > MAX_TOKENS_PER_CHUNK self then Inr st
          else if current_tokens st + sentence_tokens > MAX_TOKENS_PER_CHUNK self \<and>
                  current_sentences st \<noteq> []
          then (case overlap_loop_raising raises self (rev (current_sentences st)) ([], 0) of
                  Inl e \<Rightarrow> Inl e
                | Inr (overlap_sentences, overlap_tokens) \<Rightarrow>
                    Inr \<lparr>chunks = chunks st @ [join_sp (current_sentences st)],
                         current_sentences = overlap_sentences @ [sentence],
                         current_tokens = overlap_tokens + sentence_tokens,
                         chunk_sentences = chunk_sentences st @ [current_sentences st]\<rparr>)
          else Inr (st\<lparr>current_sentences := current_sentences st @ [sentence],
                       current_tokens := current_tokens st + sentence_tokens\<rparr>))"

fun scan_raising ::
  "(ustring \<Rightarrow> bool) \<Rightarrow> chroma_vector_database \<Rightarrow> scan_state \<Rightarrow> ustring list \<Rightarrow> error + scan_state" where
  "scan_raising raises self st [] = Inr st"
| "scan_raising raises self st (sentence # rest) =
     (case scan_step_raising raises self st sentence of
        Inl e \<Rightarrow> Inl e
      | Inr st' \<Rightarrow> scan_raising raises self st' rest)"

text \<open>The sum of the statistics line: one count for each valid chunk.\<close>

fun sum_tokens_raising ::
  "(ustring \<Rightarrow> bool) \<Rightarrow> chroma_vector_database \<Rightarrow> ustring list \<Rightarrow> error + int" where
  "sum_tokens_raising raises self [] = Inr 0"
| "sum_tokens_raising raises self (chunk # rest) =
     (case count_tokens_raising raises self chunk of
        Inl e \<Rightarrow> Inl e
      | Inr n \<Rightarrow>
          (case sum_tokens_raising raises self rest of
             Inl e \<Rightarrow> Inl e
           | Inr others \<Rightarrow> Inr (n + others)))"

text \<open>
  \<open>_smart_chunk_text\<close> with the exception. The statistics line is kept as far as it
  counts tokens: its value is printed and dropped, but its calls of \<open>_count_tokens\<close> can
  raise.
\<close>

definition smart_chunk_text_raising ::
  "(ustring \<Rightarrow> bool) \<Rightarrow> unicode_db \<Rightarrow> chroma_vector_database \<Rightarrow> ustring \<Rightarrow> error + ustring list" where
  "smart_chunk_text_raising raises U self text =
     (let text = clean_text U text;
          sentences = improved_sentence_split U text
      in if sentences = [] then Inr []
         else (case scan_raising raises self scan_init sentences of
                 Inl e \<Rightarrow> Inl e
               | Inr st \<Rightarrow>
                   (let valid_chunks =
                          filter (\<lambda>chunk. strip chunk \<noteq> []) (chunks (scan_finish st))
                    in if valid_chunks \<noteq> []
                       then (case sum_tokens_raising raises self valid_chunks of
                               Inl e \<Rightarrow> Inl e
                             | Inr total_tokens \<Rightarrow> Inr valid_chunks)
                       else Inr valid_chunks)))"

text \<open>\<open>raises_on raises self text\<close>: the call \<open>self._count_tokens(text)\<close> raises.\<close>

definition raises_on :: "(ustring \<Rightarrow> bool) \<Rightarrow> chroma_vector_database \<Rightarrow> ustring \<Rightarrow> bool" where
  "raises_on raises self text = (tokenizer self \<noteq> None \<and> raises text)"

text \<open>
  The encoding that \<open>__init__\<close> loads is \<open>cl100k_base\<close>. These are its special tokens, and
  \<open>encode\<close> with default arguments raises on every text in which one of them occurs.
\<close>

definition special_tokens :: "ustring list" where
  "special_tokens = map ustr
     [''<|endoftext|>'', ''<|fim_prefix|>'', ''<|fim_middle|>'', ''<|fim_suffix|>'',
      ''<|endofprompt|>'']"

definition tiktoken_raises :: "ustring \<Rightarrow> bool" where
  "tiktoken_raises text = list_ex (\<lambda>token. sublist token text) special_tokens"

text \<open>
  A loaded tokenizer for concrete texts: one token for each code point. Where \<open>encode\<close>
  raises, its token list is never read.
\<close>

definition code_point_tokens :: "ustring \<Rightarrow> nat list" where
  "code_point_tokens text = text"


section \<open>Evaluation on concrete texts\<close>

lemmas rx_defs = rx_spaces_def rx_citation_def rx_literal_def rx_alt_def rx_dots_def
  rx_abbr_def rx_sentence_end_def rx_paragraph_break_def word_boundary_def
  abbr_char_matches_def ignorecase_eq_def ascii_lower_def isspace_def is_decimal_def is_word_def
  strip_def ustr_def Let_def

lemmas split_defs = improved_sentence_split_def protect_abbreviations_def abbreviations_def
  restore_dots_def

section \<open>The token counter\<close>

lemma count_tokens_nonneg: "0 \<le> count_tokens self s"
  by (simp add: count_tokens_def pos_imp_zdiv_nonneg_iff split: option.split)

lemma count_tokens_raising_eq:
  "count_tokens_raising raises self text =
     (if raises_on raises self text then Inl ValueError else Inr (count_tokens self text))"
  by (simp add: count_tokens_raising_def count_tokens_def raises_on_def split: option.split)

lemma tiktoken_raisesI:
  "token \<in> set special_tokens \<Longrightarrow> sublist token text \<Longrightarrow> tiktoken_raises text"
  unfolding tiktoken_raises_def list_ex_iff by blast

lemma endoftext_raises: "tiktoken_raises (ustr ''<|endoftext|>'' @ rest)"
proof (rule tiktoken_raisesI)
  show "ustr ''<|endoftext|>'' \<in> set special_tokens" by (simp add: special_tokens_def)
  show "sublist (ustr ''<|endoftext|>'') (ustr ''<|endoftext|>'' @ rest)"
    by (rule prefix_imp_sublist) simp
qed

text \<open>
  Claim C6 does not hold as stated. With a tokenizer loaded, \<open>_count_tokens\<close> passes the text
  to \<open>encode\<close> and catches nothing, and \<open>encode\<close> raises on a text that contains a special
  token. The result does not depend on the vocabulary.
\<close>

theorem count_tokens_raises:
  "count_tokens_raising tiktoken_raises (init_database (Some code_point_tokens))
     (ustr ''<|endoftext|>'') = Inl ValueError"
  using endoftext_raises[of "[]"]
  by (simp add: count_tokens_raising_def init_database_def)

text \<open>
  Claim C6, amended. \<open>_count_tokens\<close> raises exactly when a tokenizer is loaded and its
  \<open>encode\<close> raises on the text; in every other case it returns a non-negative integer.
  Without a tokenizer it returns the length of the text divided by 4, rounded down, for
  every text. The outcome is a function of the tokenizer state and the text alone.
\<close>

theorem count_tokens_raising_cases:
  "(tokenizer self \<noteq> None \<and> raises text \<longrightarrow>
      count_tokens_raising raises self text = Inl ValueError) \<and>
   (tokenizer self = None \<or> \<not> raises text \<longrightarrow>
      (\<exists>n. count_tokens_raising raises self text = Inr n \<and> 0 \<le> n)) \<and>
   count_tokens_raising raises (self\<lparr>tokenizer := None\<rparr>) text = Inr (int (length text) div 4) \<and>
   count_tokens_raising raises
     \<lparr>MAX_TOKENS_PER_CHUNK = m, OVERLAP_TOKENS = v, tokenizer = tokenizer self\<rparr> text =
     count_tokens_raising raises self text"
  by (auto simp: count_tokens_raising_def pos_imp_zdiv_nonneg_iff split: option.split)

theorem count_tokens_raising_cases_witness:
  "count_tokens_raising tiktoken_raises (init_database (Some code_point_tokens))
     (ustr ''<|endofprompt|>'') = Inl ValueError \<and>
   count_tokens_raising tiktoken_raises (init_database (Some code_point_tokens))
     (ustr ''Take care now!'') = Inr 14 \<and>
   count_tokens_raising tiktoken_raises (init_database None) (ustr ''<|endofprompt|>'') = Inr 3"
proof -
  have r: "tiktoken_raises (ustr ''<|endofprompt|>'')"
    by (rule tiktoken_raisesI[of "ustr ''<|endofprompt|>''"]) (simp_all add: special_tokens_def)
  have n: "\<not> tiktoken_raises (ustr ''Take care now!'')"
    by (simp add: tiktoken_raises_def special_tokens_def ustr_def sublist_code(3))
  have len: "length (ustr ''Take care now!'') = 14" by (simp add: ustr_def)
  have t: "tokenizer (init_database (Some code_point_tokens)) \<noteq> None"
    by (simp add: init_database_def)
  from count_tokens_raising_cases
    [of "init_database (Some code_point_tokens)" tiktoken_raises "ustr ''<|endofprompt|>''"] r t
  have 1: "count_tokens_raising tiktoken_raises (init_database (Some code_point_tokens))
     (ustr ''<|endofprompt|>'') = Inl ValueError" by blast
  from count_tokens_raising_cases
    [of "init_database (Some code_point_tokens)" tiktoken_raises "ustr ''Take care now!''"] n
  obtain k where "count_tokens_raising tiktoken_raises (init_database (Some code_point_tokens))
     (ustr ''Take care now!'') = Inr k" by blast
  then have 2: "count_tokens_raising tiktoken_raises (init_database (Some code_point_tokens))
     (ustr ''Take care now!'') = Inr 14"
    using n len by (simp add: count_tokens_raising_def init_database_def code_point_tokens_def)
  have 3: "count_tokens_raising tiktoken_raises (init_database None) (ustr ''<|endofprompt|>'') = Inr 3"
    by (simp add: count_tokens_raising_def init_database_def ustr_def)
  from 1 2 3 show ?thesis by blast
qed

section \<open>The sentence splitter on concrete texts\<close>

text \<open>
  Claim C7. On the scenario text the splitter returns exactly three sentences, and the full
  stops of \<open>Dr.\<close> and \<open>Mr.\<close> do not split. This holds for every Unicode database.
\<close>

theorem split_scenario:
  "improved_sentence_split U
     (ustr ''Dr. Reyes works at sea. Mr. Cruz is an OFW in Dubai. Pamilya niya ay masaya.'') =
   [ustr ''Dr. Reyes works at sea.'', ustr ''Mr. Cruz is an OFW in Dubai.'',
    ustr ''Pamilya niya ay masaya.'']"
  by (simp add: split_defs rx_defs)

text \<open>
  Claim C10. The splitter is not content-preserving: on \<open>MR. Cruz left.\<close> the protected
  abbreviation comes back in the casing of the abbreviation list, so the one sentence
  returned is not a substring of the input.
\<close>

theorem split_rewrites_case:
  "improved_sentence_split U (ustr ''MR. Cruz left.'') = [ustr ''Mr. Cruz left.''] \<and>
   \<not> sublist (ustr ''Mr. Cruz left.'') (ustr ''MR. Cruz left.'')"
  by (simp add: split_defs rx_defs sublist_code(3))

section \<open>General facts about substitution, splitting and \<open>strip\<close>\<close>

lemma re_sub_Cons_cases:
  obtains
    (nomatch) "m p (c # cs) = None \<or> m p (c # cs) = Some 0"
      "re_sub m repl p (c # cs) = c # re_sub m repl (Some c) cs"
  | (match) n where "m p (c # cs) = Some n" "0 < n"
      "re_sub m repl p (c # cs) =
         repl @ re_sub m repl (Some (last (take n (c # cs)))) (drop n (c # cs))"
  by (cases "m p (c # cs)") auto

lemma re_split_Cons_cases:
  obtains
    (nomatch) "m p (c # cs) = None \<or> m p (c # cs) = Some 0"
      "re_split m p (c # cs) =
         (case re_split m (Some c) cs of [] \<Rightarrow> [[c]] | q # qs \<Rightarrow> (c # q) # qs)"
  | (match) n where "m p (c # cs) = Some n" "0 < n"
      "re_split m p (c # cs) =
         [] # re_split m (Some (last (take n (c # cs)))) (drop n (c # cs))"
  by (cases "m p (c # cs)") auto

lemma re_sub_match:
  "s \<noteq> [] \<Longrightarrow> m p s = Some n \<Longrightarrow> 0 < n \<Longrightarrow>
   re_sub m repl p s = repl @ re_sub m repl (Some (last (take n s))) (drop n s)"
  by (cases s) simp_all

lemma re_sub_nomatch:
  "m p (c # cs) = None \<Longrightarrow> re_sub m repl p (c # cs) = c # re_sub m repl (Some c) cs"
  by simp

text \<open>Where the pattern matches at no position, substitution and splitting change nothing.\<close>

lemma re_sub_id:
  "(\<And>p ys. suffix ys s \<Longrightarrow> m p ys = None) \<Longrightarrow> re_sub m repl prev s = s"
proof (induction s arbitrary: prev)
  case Nil
  show ?case by simp
next
  case (Cons c cs)
  have "m prev (c # cs) = None" by (rule Cons.prems) simp
  moreover have "re_sub m repl (Some c) cs = cs"
    by (rule Cons.IH) (simp add: Cons.prems suffix_ConsI)
  ultimately show ?case by simp
qed

lemma re_split_id:
  "(\<And>p ys. suffix ys s \<Longrightarrow> m p ys = None) \<Longrightarrow> re_split m prev s = [s]"
proof (induction s arbitrary: prev)
  case Nil
  show ?case by simp
next
  case (Cons c cs)
  have "m prev (c # cs) = None" by (rule Cons.prems) simp
  moreover have "re_split m (Some c) cs = [cs]"
    by (rule Cons.IH) (simp add: Cons.prems suffix_ConsI)
  ultimately show ?case by simp
qed

lemma re_split_nonempty: "re_split m p s \<noteq> []"
proof (cases s)
  case Nil
  then show ?thesis by simp
next
  case (Cons c cs)
  show ?thesis unfolding Cons
    by (cases rule: re_split_Cons_cases[where m=m and p=p and c=c and cs=cs])
       (auto split: list.splits)
qed

lemma re_sub_set: "set (re_sub m repl p s) \<subseteq> set s \<union> set repl"
proof (induction s arbitrary: p rule: length_induct)
  case (1 s)
  show ?case
  proof (cases s)
    case Nil
    then show ?thesis by simp
  next
    case (Cons c cs)
    show ?thesis
    proof (cases rule: re_sub_Cons_cases[where m=m and p=p and c=c and cs=cs and repl=repl])
      case nomatch
      have "set (re_sub m repl (Some c) cs) \<subseteq> set cs \<union> set repl"
        using 1 Cons by simp
      with nomatch Cons show ?thesis by auto
    next
      case (match n)
      have "set (re_sub m repl (Some (last (take n (c # cs)))) (drop n (c # cs)))
              \<subseteq> set (drop n (c # cs)) \<union> set repl"
        using 1 Cons match(2) by simp
      moreover have "set (drop n (c # cs)) \<subseteq> set (c # cs)" by (rule set_drop_subset)
      ultimately show ?thesis using match Cons by auto
    qed
  qed
qed

text \<open>The head of a substitution result is the head of the text or of the replacement.\<close>

lemma re_sub_hd:
  assumes "repl \<noteq> []" "s \<noteq> []"
  shows "re_sub m repl p s \<noteq> [] \<and>
         (hd (re_sub m repl p s) = hd s \<or> hd (re_sub m repl p s) = hd repl)"
proof -
  from assms(2) obtain c cs where s: "s = c # cs" by (cases s) auto
  show ?thesis unfolding s
    by (cases rule: re_sub_Cons_cases[where m=m and p=p and c=c and cs=cs and repl=repl]) (use assms(1) in auto)
qed

text \<open>
  A property of adjacent code points survives a substitution whose replacement is
  non-empty and made of code points that the property accepts next to anything.
\<close>

lemma successively_all: "(\<And>x y. x \<in> set xs \<Longrightarrow> P x y) \<Longrightarrow> successively P xs"
  by (induction xs rule: induct_list012) auto

lemma successively_drop: "successively P s \<Longrightarrow> successively P (drop n s)"
  by (metis append_take_drop_id successively_append_iff)

lemma re_sub_successively:
  assumes repl: "repl \<noteq> []" and ok: "\<And>x y. x \<in> set repl \<Longrightarrow> P x y \<and> P y x"
  shows "successively P s \<Longrightarrow> successively P (re_sub m repl p s)"
proof (induction s arbitrary: p rule: length_induct)
  case (1 s)
  show ?case
  proof (cases s)
    case Nil
    then show ?thesis by simp
  next
    case (Cons c cs)
    show ?thesis
    proof (cases rule: re_sub_Cons_cases[where m=m and p=p and c=c and cs=cs and repl=repl])
      case nomatch
      let ?r = "re_sub m repl (Some c) cs"
      from "1.prems" Cons have cs: "successively P cs" and hd: "cs = [] \<or> P c (hd cs)"
        by (auto simp: successively_Cons)
      have r: "successively P ?r" using 1 Cons cs by simp
      have "?r = [] \<or> P c (hd ?r)"
      proof (cases cs)
        case Nil
        then show ?thesis by simp
      next
        case (Cons d ds)
        with re_sub_hd[OF repl, of cs m "Some c"]
        have "hd ?r = hd cs \<or> hd ?r = hd repl" by simp
        moreover have "P c (hd repl)" using ok[of "hd repl" c] repl by simp
        ultimately show ?thesis using hd Cons by auto
      qed
      with r nomatch Cons show ?thesis by (auto simp: successively_Cons)
    next
      case (match n)
      let ?r = "re_sub m repl (Some (last (take n (c # cs)))) (drop n (c # cs))"
      have "successively P (drop n (c # cs))"
        using "1.prems" Cons by (simp only: successively_drop)
      then have r: "successively P ?r" using 1 Cons match(2) by simp
      have "successively P repl" using ok by (intro successively_all) blast
      moreover have "?r = [] \<or> P (last repl) (hd ?r)" using ok[of "last repl"] repl by simp
      ultimately have "successively P (repl @ ?r)"
        using r by (simp add: successively_append_iff)
      with match Cons show ?thesis by simp
    qed
  qed
qed

subsection \<open>\<open>strip\<close> and blank texts\<close>

lemma strip_nonempty_iff: "strip s \<noteq> [] \<longleftrightarrow> (\<exists>c\<in>set s. \<not> isspace c)"
proof -
  have "strip s \<noteq> [] \<longleftrightarrow> (\<exists>c\<in>set (dropWhile isspace s). \<not> isspace c)"
    by (auto simp: strip_def)
  also have "\<dots> \<longleftrightarrow> (\<exists>c\<in>set s. \<not> isspace c)"
  proof
    assume "\<exists>c\<in>set (dropWhile isspace s). \<not> isspace c"
    then show "\<exists>c\<in>set s. \<not> isspace c" by (blast dest: set_dropWhileD)
  next
    assume "\<exists>c\<in>set s. \<not> isspace c"
    then have ne: "dropWhile isspace s \<noteq> []" by simp
    then have "\<not> isspace (hd (dropWhile isspace s))" by (rule hd_dropWhile)
    with ne show "\<exists>c\<in>set (dropWhile isspace s). \<not> isspace c"
      using hd_in_set by blast
  qed
  finally show ?thesis .
qed

lemma strip_subset: "set (strip s) \<subseteq> set s"
  by (metis set_dropWhileD set_rev strip_def subsetI)

lemma strip_has_nonspace: "strip s \<noteq> [] \<Longrightarrow> \<exists>c\<in>set (strip s). \<not> isspace c"
proof -
  assume ne: "strip s \<noteq> []"
  let ?z = "dropWhile isspace (rev (dropWhile isspace s))"
  from ne have z: "?z \<noteq> []" by (simp add: strip_def)
  then have "\<not> isspace (hd ?z)" by (rule hd_dropWhile)
  moreover have "hd ?z \<in> set (strip s)" using z by (simp add: strip_def)
  ultimately show ?thesis by blast
qed

lemma rstrip_decomp:
  "z = rev (dropWhile isspace (rev z)) @ rev (takeWhile isspace (rev z))"
proof -
  have "rev (takeWhile isspace (rev z) @ dropWhile isspace (rev z)) = z" by simp
  then show ?thesis by (simp only: rev_append)
qed

lemma strip_decomp: "\<exists>a b. s = a @ strip s @ b"
proof -
  let ?z = "dropWhile isspace s"
  have "?z = strip s @ rev (takeWhile isspace (rev ?z))"
    unfolding strip_def by (rule rstrip_decomp)
  moreover have "s = takeWhile isspace s @ ?z" by simp
  ultimately show ?thesis by metis
qed

lemma strip_successively: "successively P s \<Longrightarrow> successively P (strip s)"
proof -
  assume a: "successively P s"
  obtain u v where "s = u @ strip s @ v" using strip_decomp by blast
  with a have "successively P (u @ strip s @ v)" by simp
  then show ?thesis by (simp add: successively_append_iff)
qed

lemma strip_id:
  assumes "s \<noteq> []" "\<not> isspace (hd s)" "\<not> isspace (last s)"
  shows "strip s = s"
proof -
  have 1: "dropWhile isspace s = s" using assms by (simp add: dropWhile_eq_self_iff)
  have 2: "dropWhile isspace (rev s) = rev s"
    using assms by (simp add: dropWhile_eq_self_iff hd_rev)
  show ?thesis by (simp add: strip_def 1 2)
qed

lemma strip_Nil: "strip [] = []"
  by (simp add: strip_def)

lemma strip_strip: "strip (strip s) = strip s"
proof (cases "strip s = []")
  case True
  then show ?thesis by (simp add: strip_Nil)
next
  case False
  let ?z = "dropWhile isspace s"
  let ?w = "dropWhile isspace (rev ?z)"
  from False have w: "?w \<noteq> []" by (simp add: strip_def)
  have z: "?z \<noteq> []" by (metis w dropWhile.simps(1) rev.simps(1))
  have "\<not> isspace (hd ?w)" using w by (rule hd_dropWhile)
  then have l: "\<not> isspace (last (strip s))" using w by (simp add: strip_def last_rev)
  have "?z = strip s @ rev (takeWhile isspace (rev ?z))"
    unfolding strip_def by (rule rstrip_decomp)
  then have "hd ?z = hd (strip s)" using False by (metis hd_append2)
  moreover have "\<not> isspace (hd ?z)" using z by (rule hd_dropWhile)
  ultimately have h: "\<not> isspace (hd (strip s))" by simp
  from False h l show ?thesis by (rule strip_id)
qed

lemma re_sub_nonblank:
  "\<exists>c\<in>set repl. \<not> isspace c \<Longrightarrow> \<exists>c\<in>set s. \<not> isspace c \<Longrightarrow>
   \<exists>c\<in>set (re_sub m repl p s). \<not> isspace c"
proof (induction m repl p s rule: re_sub.induct)
  case (1 m repl prev)
  then show ?case by simp
next
  case (2 m repl prev c cs)
  show ?case
  proof (cases "m prev (c # cs)")
    case None
    with 2 show ?thesis by (cases "isspace c") auto
  next
    case (Some n)
    show ?thesis
    proof (cases "n = 0")
      case True
      with Some 2 show ?thesis by (cases "isspace c") auto
    next
      case False
      with Some 2(4) show ?thesis by auto
    qed
  qed
qed

lemma split_nonblank:
  assumes "s \<in> set (improved_sentence_split U t)"
  shows "\<exists>c\<in>set s. \<not> isspace c"
proof -
  from assms obtain part where p: "strip part \<noteq> []" and s: "s = strip (restore_dots part)"
    by (auto simp: improved_sentence_split_def Let_def split: if_splits)
  from p have "\<exists>c\<in>set part. \<not> isspace c" by (simp add: strip_nonempty_iff)
  then have "\<exists>c\<in>set (restore_dots part). \<not> isspace c"
    unfolding restore_dots_def by (intro re_sub_nonblank) (simp_all add: ustr_def isspace_def)
  then have "strip (restore_dots part) \<noteq> []" by (simp add: strip_nonempty_iff)
  then show ?thesis unfolding s by (rule strip_has_nonspace)
qed

lemma join_sp_nonblank:
  "b \<noteq> [] \<Longrightarrow> \<forall>s\<in>set b. \<exists>c\<in>set s. \<not> isspace c \<Longrightarrow> \<exists>c\<in>set (join_sp b). \<not> isspace c"
  by (induction b rule: join_sp.induct) auto


section \<open>The normal form of \<open>_clean_text\<close>\<close>

subsection \<open>Whitespace runs\<close>

lemma rx_spaces_nonspace: "s = [] \<or> \<not> isspace (hd s) \<Longrightarrow> rx_spaces p s = None"
  by (cases s) (auto simp: rx_spaces_def)

lemma rx_spaces_space:
  "isspace c \<Longrightarrow> rx_spaces p (c # cs) = Some (Suc (length (takeWhile isspace cs)))"
  by (simp add: rx_spaces_def)

lemma spaces_head:
  assumes "s = [] \<or> \<not> isspace (hd s)"
  shows "re_sub rx_spaces [32] p s = [] \<or> \<not> isspace (hd (re_sub rx_spaces [32] p s))"
proof (cases s)
  case Nil
  then show ?thesis by simp
next
  case (Cons c cs)
  with assms have "rx_spaces p (c # cs) = None" by (intro rx_spaces_nonspace) simp
  with Cons assms show ?thesis by simp
qed

lemma spaces_single: "single_spaced (re_sub rx_spaces [32] p s)"
proof (induction s arbitrary: p rule: length_induct)
  case (1 s)
  show ?case
  proof (cases s)
    case Nil
    then show ?thesis by (simp add: single_spaced_def)
  next
    case (Cons c cs)
    show ?thesis
    proof (cases "isspace c")
      case True
      let ?n = "Suc (length (takeWhile isspace cs))"
      let ?rest = "dropWhile isspace cs"
      let ?r = "re_sub rx_spaces [32] (Some (last (take ?n (c # cs)))) ?rest"
      have eq: "re_sub rx_spaces [32] p s = 32 # ?r"
        using Cons True by (simp add: rx_spaces_space dropWhile_eq_drop)
      have "length ?rest < length s" using Cons
        by (simp add: length_dropWhile_le less_Suc_eq_le)
      with 1 have r: "single_spaced ?r" by blast
      have "?rest = [] \<or> \<not> isspace (hd ?rest)" using hd_dropWhile by blast
      then have "?r = [] \<or> \<not> isspace (hd ?r)" by (rule spaces_head)
      with r show ?thesis unfolding eq
        by (auto simp: single_spaced_def successively_Cons)
    next
      case False
      let ?r = "re_sub rx_spaces [32] (Some c) cs"
      have eq: "re_sub rx_spaces [32] p s = c # ?r"
        using Cons False by (simp add: rx_spaces_nonspace)
      have r: "single_spaced ?r" using 1 Cons by simp
      with False show ?thesis unfolding eq
        by (auto simp: single_spaced_def successively_Cons)
    qed
  qed
qed

lemma spaces_id: "single_spaced s \<Longrightarrow> re_sub rx_spaces [32] p s = s"
proof (induction s arbitrary: p)
  case Nil
  show ?case by simp
next
  case (Cons c cs)
  from Cons.prems have cs: "single_spaced cs"
    by (auto simp: single_spaced_def successively_Cons)
  show ?case
  proof (cases "isspace c")
    case True
    with Cons.prems have c: "c = 32" and nx: "cs = [] \<or> \<not> isspace (hd cs)"
      by (auto simp: single_spaced_def successively_Cons)
    from nx have "takeWhile isspace cs = []" by (cases cs) auto
    with True c show ?thesis by (simp add: rx_spaces_space Cons.IH[OF cs])
  next
    case False
    then show ?thesis by (simp add: rx_spaces_nonspace Cons.IH[OF cs])
  qed
qed

lemma single_spaced_sub:
  assumes "repl \<noteq> []" "\<forall>c\<in>set repl. \<not> isspace c" "single_spaced s"
  shows "single_spaced (re_sub m repl p s)"
proof -
  have "successively (\<lambda>a b. \<not> (isspace a \<and> isspace b)) (re_sub m repl p s)"
    using assms by (intro re_sub_successively) (auto simp: single_spaced_def)
  moreover have "\<forall>c\<in>set (re_sub m repl p s). isspace c \<longrightarrow> c = 32"
    using assms re_sub_set[of m repl p s] by (auto simp: single_spaced_def)
  ultimately show ?thesis by (simp add: single_spaced_def)
qed

lemma single_spaced_strip: "single_spaced s \<Longrightarrow> single_spaced (strip s)"
  using strip_subset[of s] by (auto simp: single_spaced_def strip_successively)

subsection \<open>Citation markers\<close>

lemma rx_citation_prev: "rx_citation U p s = rx_citation U q s"
  by (simp add: rx_citation_def)

lemma has_citation_iff:
  "\<not> has_citation U s \<longleftrightarrow> (\<forall>p ys. suffix ys s \<longrightarrow> rx_citation U p ys = None)"
proof (induction s)
  case Nil
  show ?case by (simp add: rx_citation_def)
next
  case (Cons c cs)
  have "rx_citation U p (c # cs) = rx_citation U None (c # cs)" for p
    by (rule rx_citation_prev)
  with Cons show ?case by (auto simp: suffix_Cons)
qed

lemma citation_free_id: "\<not> has_citation U s \<Longrightarrow> re_sub (rx_citation U) [] p s = s"
  by (rule re_sub_id) (simp add: has_citation_iff)

lemma no_bracket_no_citation: "91 \<notin> set s \<Longrightarrow> \<not> has_citation U s"
  by (induction s) (auto simp: rx_citation_def)

lemma has_citation_drop: "\<not> has_citation U s \<Longrightarrow> \<not> has_citation U (drop n s)"
  unfolding has_citation_iff by (meson suffix_drop suffix_order.trans)

lemma has_citation_append:
  "\<forall>x\<in>set xs. x \<noteq> 91 \<Longrightarrow> \<not> has_citation U ys \<Longrightarrow> \<not> has_citation U (xs @ ys)"
  by (induction xs) (auto simp: rx_citation_def)

text \<open>A match of the citation pattern is decided by the code points it covers.\<close>

lemma rx_citation_SomeD:
  assumes "rx_citation U p (c # r) = Some k"
  shows "c = 91 \<and> 3 \<le> k \<and> k - 1 \<le> length r \<and> (\<forall>d\<in>set (take (k - 1) r). cit_char U d)"
proof -
  let ?tw = "takeWhile (is_decimal U) r"
  let ?n = "length ?tw"
  from assms have c: "c = 91" and n: "0 < ?n" and close: "take 1 (drop ?n r) = [93]"
    and k: "k = ?n + 2"
    by (auto simp: rx_citation_def Let_def split: if_splits)
  from close obtain rest where d: "drop ?n r = 93 # rest" by (cases "drop ?n r") auto
  have "r = take ?n r @ drop ?n r" by simp
  also have "take ?n r = ?tw" by (rule takeWhile_eq_take[symmetric])
  finally have r: "r = ?tw @ 93 # rest" using d by simp
  have "take (k - 1) r = ?tw @ [93]" using k by (subst r) simp
  moreover have "\<forall>d\<in>set ?tw. is_decimal U d" by (auto dest: set_takeWhileD)
  moreover have "k - 1 \<le> length r" using k by (subst r) simp
  ultimately show ?thesis using c n k by (auto simp: cit_char_def Suc_le_eq)
qed

lemma rx_citation_cong:
  assumes "rx_citation U p (c # r) = Some k" "take (k - 1) r' = take (k - 1) r"
  shows "rx_citation U q (c # r') = Some k"
proof -
  let ?tw = "takeWhile (is_decimal U) r"
  let ?n = "length ?tw"
  from assms(1) have c: "c = 91" and n: "0 < ?n" and close: "take 1 (drop ?n r) = [93]"
    and k: "k = ?n + 2"
    by (auto simp: rx_citation_def Let_def split: if_splits)
  from close obtain rest where d: "drop ?n r = 93 # rest" by (cases "drop ?n r") auto
  have "r = take ?n r @ drop ?n r" by simp
  also have "take ?n r = ?tw" by (rule takeWhile_eq_take[symmetric])
  finally have r: "r = ?tw @ 93 # rest" using d by simp
  have t: "take (k - 1) r = ?tw @ [93]" using k by (subst r) simp
  have "r' = take (k - 1) r' @ drop (k - 1) r'" by simp
  with assms(2) t have r': "r' = ?tw @ 93 # drop (k - 1) r'" by simp
  have dec: "\<forall>d\<in>set ?tw. is_decimal U d" by (auto dest: set_takeWhileD)
  have nd: "\<not> is_decimal U 93" by (simp add: is_decimal_def)
  have "takeWhile (is_decimal U) r' = ?tw"
    by (subst r') (use dec nd in \<open>simp add: takeWhile_append2\<close>)
  moreover have "drop ?n r' = 93 # drop (k - 1) r'" by (subst r') simp
  ultimately show ?thesis using c n k by (simp add: rx_citation_def Let_def)
qed

text \<open>
  Up to the first code point that is neither a digit nor a closing bracket, a
  substitution whose replacement starts with such a code point leaves the text as it is.
\<close>

lemma re_sub_take_cit:
  assumes "repl \<noteq> []" "\<not> cit_char U (hd repl)"
  shows "\<forall>d\<in>set (take k (re_sub m repl p s)). cit_char U d \<Longrightarrow>
         take k (re_sub m repl p s) = take k s"
proof (induction k arbitrary: p s)
  case 0
  show ?case by simp
next
  case (Suc k)
  show ?case
  proof (cases s)
    case Nil
    then show ?thesis by simp
  next
    case (Cons c cs)
    show ?thesis
    proof (cases rule: re_sub_Cons_cases[where m=m and p=p and c=c and cs=cs and repl=repl])
      case nomatch
      from Suc.prems nomatch(2) Cons
      have "\<forall>d\<in>set (take k (re_sub m repl (Some c) cs)). cit_char U d" by simp
      then have "take k (re_sub m repl (Some c) cs) = take k cs" by (rule Suc.IH)
      with nomatch(2) Cons show ?thesis by simp
    next
      case (match n)
      from assms(1) obtain x xs where "repl = x # xs" by (cases repl) auto
      with Suc.prems match(3) Cons assms(2) show ?thesis by simp
    qed
  qed
qed

lemma re_sub_citation_free:
  assumes "repl \<noteq> []" "\<forall>x\<in>set repl. x \<noteq> 91" "\<not> cit_char U (hd repl)"
  shows "\<not> has_citation U s \<Longrightarrow> \<not> has_citation U (re_sub m repl p s)"
proof (induction s arbitrary: p rule: length_induct)
  case (1 s)
  show ?case
  proof (cases s)
    case Nil
    then show ?thesis by simp
  next
    case (Cons c cs)
    from "1.prems" Cons have here: "rx_citation U None (c # cs) = None"
      and cs: "\<not> has_citation U cs"
      by (auto split: if_splits)
    show ?thesis
    proof (cases rule: re_sub_Cons_cases[where m=m and p=p and c=c and cs=cs and repl=repl])
      case nomatch
      let ?r = "re_sub m repl (Some c) cs"
      have r: "\<not> has_citation U ?r" using 1 Cons cs by simp
      have "rx_citation U None (c # ?r) = None"
      proof (rule ccontr)
        assume "rx_citation U None (c # ?r) \<noteq> None"
        then obtain k where k: "rx_citation U None (c # ?r) = Some k" by auto
        from rx_citation_SomeD[OF k]
        have "\<forall>d\<in>set (take (k - 1) ?r). cit_char U d" by simp
        then have "take (k - 1) ?r = take (k - 1) cs"
          by (rule re_sub_take_cit[OF assms(1,3)])
        then have "take (k - 1) cs = take (k - 1) ?r" by simp
        from rx_citation_cong[OF k this] have "rx_citation U None (c # cs) = Some k" .
        with here show False by simp
      qed
      with r nomatch(2) Cons show ?thesis by simp
    next
      case (match n)
      let ?r = "re_sub m repl (Some (last (take n (c # cs)))) (drop n (c # cs))"
      have "\<not> has_citation U (drop n (c # cs))"
        using "1.prems" Cons has_citation_drop by blast
      then have "\<not> has_citation U ?r" using 1 Cons match(2) by simp
      with assms(2) have "\<not> has_citation U (repl @ ?r)" by (rule has_citation_append)
      with match(3) Cons show ?thesis by simp
    qed
  qed
qed

lemma has_citation_prefix: "\<not> has_citation U (s @ b) \<Longrightarrow> \<not> has_citation U s"
proof (induction s)
  case Nil
  show ?case by simp
next
  case (Cons c cs)
  from Cons.prems have here: "rx_citation U None (c # cs @ b) = None"
    and rest: "\<not> has_citation U (cs @ b)"
    by (auto split: if_splits)
  have "rx_citation U None (c # cs) = None"
  proof (rule ccontr)
    assume "rx_citation U None (c # cs) \<noteq> None"
    then obtain k where k: "rx_citation U None (c # cs) = Some k" by auto
    from rx_citation_SomeD[OF k] have "k - 1 \<le> length cs" by simp
    then have "take (k - 1) (cs @ b) = take (k - 1) cs" by simp
    from rx_citation_cong[OF k this] have "rx_citation U None (c # cs @ b) = Some k" .
    with here show False by simp
  qed
  with Cons.IH[OF rest] show ?case by simp
qed

lemma strip_citation_free: "\<not> has_citation U s \<Longrightarrow> \<not> has_citation U (strip s)"
proof -
  assume a: "\<not> has_citation U s"
  obtain u v where uv: "s = u @ strip s @ v" using strip_decomp by blast
  have "suffix (strip s @ v) s" by (subst (2) uv) (simp add: suffix_def)
  with a have "\<not> has_citation U (strip s @ v)"
    unfolding has_citation_iff by (meson suffix_order.trans)
  then show ?thesis by (rule has_citation_prefix)
qed

subsection \<open>Mis-encoded quotes\<close>

lemma no_mojibake_prefix:
  assumes "no_mojibake s" "suffix ys s"
  shows "\<not> prefix [0xE2, 0x20AC] ys"
proof
  assume "prefix [0xE2, 0x20AC] ys"
  then obtain r where ys: "ys = 0xE2 # 0x20AC # r" by (auto simp: prefix_def)
  from assms(2) obtain zs where "s = zs @ ys" by (auto simp: suffix_def)
  with assms(1) have "successively (\<lambda>a b. \<not> (a = 0xE2 \<and> b = 0x20AC)) ys"
    by (simp add: no_mojibake_def successively_append_iff)
  with ys show False by simp
qed

lemma apostrophe_id:
  "no_mojibake s \<Longrightarrow> re_sub (rx_literal [0xE2, 0x20AC, 0x2122]) [39] p s = s"
proof (rule re_sub_id)
  fix q ys
  assume "no_mojibake s" "suffix ys s"
  then have "\<not> prefix [0xE2, 0x20AC] ys" by (rule no_mojibake_prefix)
  then have "\<not> prefix [0xE2, 0x20AC, 0x2122] ys" by (auto simp: prefix_def)
  then show "rx_literal [0xE2, 0x20AC, 0x2122] q ys = None" by (simp add: rx_literal_def)
qed

lemma quotes_id:
  "no_mojibake s \<Longrightarrow>
   re_sub (rx_alt (rx_literal [0xE2, 0x20AC, 0x153]) (rx_literal [0xE2, 0x20AC])) [34] p s = s"
proof (rule re_sub_id)
  fix q ys
  assume "no_mojibake s" "suffix ys s"
  then have 1: "\<not> prefix [0xE2, 0x20AC] ys" by (rule no_mojibake_prefix)
  then have "\<not> prefix [0xE2, 0x20AC, 0x153] ys" by (auto simp: prefix_def)
  with 1 show "rx_alt (rx_literal [0xE2, 0x20AC, 0x153]) (rx_literal [0xE2, 0x20AC]) q ys = None"
    by (simp add: rx_alt_def rx_literal_def)
qed

lemma quotes_no_mojibake:
  "no_mojibake
     (re_sub (rx_alt (rx_literal [0xE2, 0x20AC, 0x153]) (rx_literal [0xE2, 0x20AC])) [34] p s)"
proof (induction s arbitrary: p rule: length_induct)
  case (1 s)
  let ?m = "rx_alt (rx_literal [0xE2, 0x20AC, 0x153]) (rx_literal [0xE2, 0x20AC])"
  show ?case
  proof (cases s)
    case Nil
    then show ?thesis by (simp add: no_mojibake_def)
  next
    case (Cons c cs)
    show ?thesis
    proof (cases rule: re_sub_Cons_cases[where m="?m" and p=p and c=c and cs=cs and repl="[34]"])
      case nomatch
      let ?r = "re_sub ?m [34] (Some c) cs"
      have r: "no_mojibake ?r" using 1 Cons by simp
      from nomatch(1) have np: "\<not> prefix [0xE2, 0x20AC] (c # cs)"
        by (auto simp: rx_alt_def rx_literal_def split: option.splits if_splits)
      have "?r = [] \<or> \<not> (c = 0xE2 \<and> hd ?r = 0x20AC)"
      proof (cases cs)
        case Nil
        then show ?thesis by simp
      next
        case (Cons d ds)
        with re_sub_hd[of "[34]" cs ?m "Some c"]
        have "hd ?r = d \<or> hd ?r = 34" by simp
        moreover from np Cons have "\<not> (c = 0xE2 \<and> d = 0x20AC)" by simp
        ultimately show ?thesis by auto
      qed
      with r nomatch(2) Cons show ?thesis
        by (auto simp: no_mojibake_def successively_Cons)
    next
      case (match n)
      let ?r = "re_sub ?m [34] (Some (last (take n (c # cs)))) (drop n (c # cs))"
      have "no_mojibake ?r" using 1 Cons match(2) by simp
      with match(3) Cons show ?thesis
        by (auto simp: no_mojibake_def successively_Cons)
    qed
  qed
qed

lemma no_mojibake_sub:
  assumes "repl \<noteq> []" "0xE2 \<notin> set repl" "0x20AC \<notin> set repl" "no_mojibake s"
  shows "no_mojibake (re_sub m repl p s)"
  unfolding no_mojibake_def
  using assms by (intro re_sub_successively) (auto simp: no_mojibake_def)

subsection \<open>Runs of full stops\<close>

lemma rx_dots_short: "ldr s < 3 \<Longrightarrow> rx_dots p s = None"
  by (simp add: rx_dots_def)

lemma rx_dots_long: "3 \<le> ldr s \<Longrightarrow> rx_dots p s = Some (ldr s)"
  by (simp add: rx_dots_def)

lemma ldr_append_le: "ldr (xs @ ys) \<le> length xs + ldr ys"
  by (induction xs) auto

lemma ldr_mono_append: "ldr ys \<le> ldr (ys @ b)"
  by (induction ys) auto

lemma ldr_dropWhile: "ldr (dropWhile (\<lambda>c. c = 46) s) = 0"
  by (induction s) auto

lemma dots_ldr: "ldr (re_sub rx_dots [46, 46, 46] p s) = min 3 (ldr s)"
proof (induction s arbitrary: p rule: length_induct)
  case (1 s)
  show ?case
  proof (cases s)
    case Nil
    then show ?thesis by simp
  next
    case (Cons c cs)
    show ?thesis
    proof (cases "3 \<le> ldr s")
      case True
      let ?s' = "drop (ldr s) s"
      let ?r = "re_sub rx_dots [46, 46, 46] (Some (last (take (ldr s) s))) ?s'"
      have eq: "re_sub rx_dots [46, 46, 46] p s = [46, 46, 46] @ ?r"
        using Cons True by (intro re_sub_match rx_dots_long) (simp_all split: if_splits)
      have "length ?s' < length s" using True Cons by simp
      with 1 have "ldr ?r = min 3 (ldr ?s')" by blast
      moreover have "ldr ?s' = 0"
        using ldr_dropWhile[of s] by (simp add: dropWhile_eq_drop)
      ultimately have "ldr ?r = 0" by simp
      then have "ldr ([46, 46, 46] @ ?r) = 3" by simp
      with True show ?thesis unfolding eq by simp
    next
      case False
      let ?r = "re_sub rx_dots [46, 46, 46] (Some c) cs"
      have eq: "re_sub rx_dots [46, 46, 46] p s = c # ?r"
        unfolding Cons using False Cons by (intro re_sub_nomatch rx_dots_short) simp
      have r: "ldr ?r = min 3 (ldr cs)" using 1 Cons by simp
      show ?thesis unfolding eq using False r Cons by (cases "c = 46") auto
    qed
  qed
qed

lemma dots_establish: "dots_ok (re_sub rx_dots [46, 46, 46] p s)"
proof (induction s arbitrary: p rule: length_induct)
  case (1 s)
  show ?case
  proof (cases s)
    case Nil
    then show ?thesis by (simp add: dots_ok_def)
  next
    case (Cons c cs)
    have whole: "ldr (re_sub rx_dots [46, 46, 46] p s) \<le> 3" by (simp add: dots_ldr)
    show ?thesis
    proof (cases "3 \<le> ldr s")
      case True
      let ?s' = "drop (ldr s) s"
      let ?r = "re_sub rx_dots [46, 46, 46] (Some (last (take (ldr s) s))) ?s'"
      have eq: "re_sub rx_dots [46, 46, 46] p s = [46, 46, 46] @ ?r"
        using Cons True by (intro re_sub_match rx_dots_long) (simp_all split: if_splits)
      have "length ?s' < length s" using True Cons by simp
      with 1 have r: "dots_ok ?r" by blast
      have "ldr ?s' = 0" using ldr_dropWhile[of s] by (simp add: dropWhile_eq_drop)
      then have r0: "ldr ?r = 0" by (simp add: dots_ldr)
      have "ldr ys \<le> 3" if "suffix ys ([46, 46, 46] @ ?r)" for ys
      proof -
        from that have "suffix ys ?r \<or> (\<exists>xs. ys = xs @ ?r \<and> suffix xs [46, 46, 46])"
          by (simp only: suffix_append)
        then consider "suffix ys ?r" | xs where "ys = xs @ ?r" "suffix xs [46, 46, 46]"
          by blast
        then show ?thesis
        proof cases
          case 1
          with r show ?thesis by (simp add: dots_ok_def)
        next
          case 2
          from 2(2) have "length xs \<le> 3" using suffix_length_le by fastforce
          with ldr_append_le[of xs ?r] r0 2(1) show ?thesis by simp
        qed
      qed
      then show ?thesis unfolding eq dots_ok_def by blast
    next
      case False
      let ?r = "re_sub rx_dots [46, 46, 46] (Some c) cs"
      have eq: "re_sub rx_dots [46, 46, 46] p s = c # ?r"
        unfolding Cons using False Cons by (intro re_sub_nomatch rx_dots_short) simp
      have r: "dots_ok ?r" using 1 Cons by simp
      have "ldr ys \<le> 3" if "suffix ys (c # ?r)" for ys
      proof -
        from that consider "ys = c # ?r" | "suffix ys ?r" by (auto simp: suffix_Cons)
        then show ?thesis
        proof cases
          case 1
          with whole eq show ?thesis by simp
        next
          case 2
          with r show ?thesis by (simp add: dots_ok_def)
        qed
      qed
      then show ?thesis unfolding eq dots_ok_def by blast
    qed
  qed
qed

lemma dots_ok_suffix: "dots_ok s \<Longrightarrow> suffix ys s \<Longrightarrow> dots_ok ys"
  unfolding dots_ok_def by (meson suffix_order.trans)

lemma dots_ok_factor: "dots_ok (a @ s @ b) \<Longrightarrow> dots_ok s"
proof -
  assume ok: "dots_ok (a @ s @ b)"
  have "ldr ys \<le> 3" if "suffix ys s" for ys
  proof -
    from that have "suffix (ys @ b) (a @ s @ b)" by (auto simp: suffix_def)
    with ok have "ldr (ys @ b) \<le> 3" by (simp add: dots_ok_def)
    with ldr_mono_append[of ys b] show ?thesis by simp
  qed
  then show ?thesis by (simp add: dots_ok_def)
qed

lemma dots_id: "dots_ok s \<Longrightarrow> re_sub rx_dots [46, 46, 46] p s = s"
proof (induction s arbitrary: p rule: length_induct)
  case (1 s)
  show ?case
  proof (cases s)
    case Nil
    then show ?thesis by simp
  next
    case (Cons c cs)
    show ?thesis
    proof (cases "3 \<le> ldr s")
      case True
      moreover from "1.prems" have "ldr s \<le> 3" by (simp add: dots_ok_def)
      ultimately have n: "ldr s = 3" by simp
      have tw: "takeWhile (\<lambda>c. c = 46) s = take 3 s"
        using n takeWhile_eq_take[of "\<lambda>c. c = 46" s] by simp
      have "\<forall>x\<in>set (takeWhile (\<lambda>c. c = 46) s). x = 46" by (auto dest: set_takeWhileD)
      then have "replicate (ldr s) 46 = takeWhile (\<lambda>c. c = 46) s"
        by (rule replicate_length_same)
      with n tw have t3: "take 3 s = [46, 46, 46]" by (simp add: numeral_3_eq_3)
      have "dots_ok (drop 3 s)" using "1.prems" by (rule dots_ok_suffix) (rule suffix_drop)
      moreover have "length (drop 3 s) < length s" using Cons by simp
      ultimately have "re_sub rx_dots [46, 46, 46] (Some (last (take 3 s))) (drop 3 s) = drop 3 s"
        using 1 by blast
      moreover have "re_sub rx_dots [46, 46, 46] p s =
          [46, 46, 46] @ re_sub rx_dots [46, 46, 46] (Some (last (take 3 s))) (drop 3 s)"
        using Cons rx_dots_long[OF True, of p] unfolding n by (intro re_sub_match) simp_all
      ultimately have "re_sub rx_dots [46, 46, 46] p s = take 3 s @ drop 3 s"
        by (simp only: t3)
      then show ?thesis by simp
    next
      case False
      have eq: "re_sub rx_dots [46, 46, 46] p s = c # re_sub rx_dots [46, 46, 46] (Some c) cs"
        unfolding Cons using False Cons by (intro re_sub_nomatch rx_dots_short) simp
      have "dots_ok cs" using "1.prems" Cons by (auto intro: dots_ok_suffix simp: suffix_ConsI)
      then have "re_sub rx_dots [46, 46, 46] (Some c) cs = cs" using 1 Cons by simp
      with eq Cons show ?thesis by simp
    qed
  qed
qed

subsection \<open>Idempotence\<close>

text \<open>A text in normal form is a fixed point of \<open>_clean_text\<close>.\<close>

lemma clean_text_fixed:
  assumes "single_spaced s" "\<not> has_citation U s" "no_mojibake s" "dots_ok s" "strip s = s"
  shows "clean_text U s = s"
  using assms
  by (simp add: clean_text_def Let_def ustr_def spaces_id citation_free_id apostrophe_id
      quotes_id dots_id)

lemma clean_text_normal:
  assumes "\<not> has_citation U t"
  shows "single_spaced (clean_text U t) \<and> \<not> has_citation U (clean_text U t) \<and>
         no_mojibake (clean_text U t) \<and> dots_ok (clean_text U t) \<and>
         strip (clean_text U t) = clean_text U t"
proof -
  define x1 where "x1 = re_sub rx_spaces [32] None t"
  define x3 where "x3 = re_sub (rx_literal [0xE2, 0x20AC, 0x2122]) [39] None x1"
  define x4 where
    "x4 = re_sub (rx_alt (rx_literal [0xE2, 0x20AC, 0x153]) (rx_literal [0xE2, 0x20AC])) [34] None x3"
  define x5 where "x5 = re_sub rx_dots [46, 46, 46] None x4"
  have b1: "\<not> has_citation U x1" unfolding x1_def
    using assms by (intro re_sub_citation_free) (simp_all add: cit_char_def is_decimal_def)
  then have c: "clean_text U t = strip x5"
    by (simp add: clean_text_def Let_def ustr_def x1_def x3_def x4_def x5_def citation_free_id)
  have b3: "\<not> has_citation U x3" unfolding x3_def
    using b1 by (intro re_sub_citation_free) (simp_all add: cit_char_def is_decimal_def)
  have b4: "\<not> has_citation U x4" unfolding x4_def
    using b3 by (intro re_sub_citation_free) (simp_all add: cit_char_def is_decimal_def)
  have b5: "\<not> has_citation U x5" unfolding x5_def
    using b4 by (intro re_sub_citation_free) (simp_all add: cit_char_def is_decimal_def)
  have a1: "single_spaced x1" unfolding x1_def by (rule spaces_single)
  have a3: "single_spaced x3" unfolding x3_def
    using a1 by (intro single_spaced_sub) (simp_all add: isspace_def)
  have a4: "single_spaced x4" unfolding x4_def
    using a3 by (intro single_spaced_sub) (simp_all add: isspace_def)
  have a5: "single_spaced x5" unfolding x5_def
    using a4 by (intro single_spaced_sub) (simp_all add: isspace_def)
  have m4: "no_mojibake x4" unfolding x4_def by (rule quotes_no_mojibake)
  have m5: "no_mojibake x5" unfolding x5_def
    using m4 by (intro no_mojibake_sub) simp_all
  have d5: "dots_ok x5" unfolding x5_def by (rule dots_establish)
  obtain u v where uv: "x5 = u @ strip x5 @ v" using strip_decomp by blast
  have "dots_ok (u @ strip x5 @ v)" using d5 uv by simp
  then have d: "dots_ok (strip x5)" by (rule dots_ok_factor)
  have "\<not> has_citation U (strip x5)" using b5 by (rule strip_citation_free)
  moreover have "no_mojibake (strip x5)"
    using m5 by (simp add: no_mojibake_def strip_successively)
  ultimately show ?thesis
    unfolding c using a5 d by (simp add: single_spaced_strip strip_strip)
qed

text \<open>
  Claim C3 does not hold as stated. Citation markers are removed after the whitespace has
  been collapsed, so removing \<open>[1]\<close> from \<open>a [1] b\<close> leaves two spaces side by side, which
  only a second pass collapses. The two values are the same for every Unicode database.
\<close>

lemma clean_text_citation_example:
  "clean_text U (ustr ''a [1] b'') = ustr ''a  b'' \<and> clean_text U (ustr ''a  b'') = ustr ''a b''"
  by (simp add: clean_text_def rx_defs)

theorem clean_text_not_idempotent:
  "clean_text ascii_db (clean_text ascii_db (ustr ''a [1] b'')) \<noteq>
   clean_text ascii_db (ustr ''a [1] b'')"
  using clean_text_citation_example[of ascii_db] by (simp add: ustr_def)

text \<open>
  Claim C3, amended. On every text in which the citation pattern matches nowhere,
  \<open>_clean_text\<close> is idempotent, for every Unicode database.
\<close>

theorem clean_text_idempotent_without_citations:
  "\<not> has_citation U t \<Longrightarrow> clean_text U (clean_text U t) = clean_text U t"
  using clean_text_normal[of U t] by (intro clean_text_fixed) simp_all

theorem clean_text_idempotent_without_citations_witness:
  "\<not> has_citation ascii_db (ustr ''  See [note 1]   now....  '') \<and>
   clean_text ascii_db (ustr ''  See [note 1]   now....  '') = ustr ''See [note 1] now...'' \<and>
   clean_text ascii_db (clean_text ascii_db (ustr ''  See [note 1]   now....  '')) =
     clean_text ascii_db (ustr ''  See [note 1]   now....  '')"
proof -
  have 1: "\<not> has_citation ascii_db (ustr ''  See [note 1]   now....  '')"
    by (simp add: rx_citation_def is_decimal_def ustr_def)
  have 2: "clean_text ascii_db (ustr ''  See [note 1]   now....  '') = ustr ''See [note 1] now...''"
    by (simp add: clean_text_def rx_defs)
  from clean_text_idempotent_without_citations[OF 1] 1 2 show ?thesis by blast
qed



section \<open>Texts without a full stop\<close>

text \<open>
  The abbreviation patterns end in a literal full stop, so a text without one passes the
  protection step unchanged. The examples below end their sentences with \<open>!\<close>. They are
  ASCII texts, on which every Unicode database gives the same result; the closed
  statements further down take \<open>ascii_db\<close>.
\<close>

lemma abbr_prefix_dot: "abbr_prefix abbr s \<Longrightarrow> 46 \<in> set s"
  by (induction abbr s rule: abbr_prefix.induct) (auto simp: prefix_def split: if_splits)

lemma abbr_id: "46 \<notin> set s \<Longrightarrow> re_sub (rx_abbr U abbr) repl p s = s"
proof (rule re_sub_id)
  fix q ys
  assume "46 \<notin> set s" "suffix ys s"
  then have "46 \<notin> set ys" by (meson set_mono_suffix subsetD)
  then have "\<not> abbr_prefix abbr ys" using abbr_prefix_dot by blast
  then show "rx_abbr U abbr q ys = None" by (simp add: rx_abbr_def)
qed

lemma protect_no_dot: "46 \<notin> set s \<Longrightarrow> protect_abbreviations U s = s"
proof -
  assume a: "46 \<notin> set s"
  have "foldl (\<lambda>text abbr. re_sub (rx_abbr U abbr) (abbr @ ustr ''<DOT>'') None text) s as = s"
    for as
    by (induction as) (simp_all add: abbr_id[OF a])
  then show ?thesis by (simp add: protect_abbreviations_def)
qed

lemma ex1_sentences:
  "improved_sentence_split U (clean_text U (ustr ''Good morning all! See you! Take care now!'')) =
   [ustr ''Good morning all!'', ustr ''See you!'', ustr ''Take care now!'']"
  by (simp add: clean_text_def improved_sentence_split_def restore_dots_def protect_no_dot rx_defs)

lemma ex1_buffers:
  "chunk_buffers U \<lparr>MAX_TOKENS_PER_CHUNK = 6, OVERLAP_TOKENS = 2, tokenizer = None\<rparr>
     (ustr ''Good morning all! See you! Take care now!'') =
   [[ustr ''Good morning all!'', ustr ''See you!''], [ustr ''See you!'', ustr ''Take care now!'']]"
  unfolding chunk_buffers_def ex1_sentences
  by (simp add: scan_def scan_step_def scan_init_def scan_finish_def overlap_of_def count_tokens_def ustr_def)

lemma ex2_sentences:
  "improved_sentence_split U (clean_text U (ustr ''Good morning all! Oh! Take care now!'')) =
   [ustr ''Good morning all!'', ustr ''Oh!'', ustr ''Take care now!'']"
  by (simp add: clean_text_def improved_sentence_split_def restore_dots_def protect_no_dot rx_defs)


subsection \<open>Two plain sentences\<close>

lemma single_spaced_two_words:
  assumes "\<forall>c\<in>set xs. \<not> isspace c" "\<forall>c\<in>set ys. \<not> isspace c"
  shows "single_spaced (xs @ 32 # ys)"
proof -
  let ?P = "\<lambda>a b. \<not> (isspace a \<and> isspace b)"
  have "successively ?P xs" using assms(1) by (intro successively_all) blast
  moreover have "successively ?P (32 # ys)"
  proof (cases ys)
    case Nil
    then show ?thesis by simp
  next
    case (Cons d ds)
    have "successively ?P ys" using assms(2) by (intro successively_all) blast
    with Cons assms(2) show ?thesis by simp
  qed
  moreover have "xs = [] \<or> ?P (last xs) 32" using assms(1) last_in_set by blast
  ultimately have "successively ?P (xs @ 32 # ys)" by (simp add: successively_append_iff)
  with assms show ?thesis by (auto simp: single_spaced_def)
qed

lemma no_mojibake_absent: "0xE2 \<notin> set s \<Longrightarrow> no_mojibake s"
  unfolding no_mojibake_def by (intro successively_all) auto

lemma dots_ok_absent: "46 \<notin> set s \<Longrightarrow> dots_ok s"
proof -
  assume a: "46 \<notin> set s"
  have "ldr ys = 0" if "suffix ys s" for ys
  proof -
    from a that have "46 \<notin> set ys" by (meson set_mono_suffix subsetD)
    then show ?thesis by (cases ys) auto
  qed
  then show ?thesis by (simp add: dots_ok_def)
qed

lemma clean_text_two_words:
  assumes "xs \<noteq> []" "ys \<noteq> []" "\<forall>c\<in>set xs. \<not> isspace c" "\<forall>c\<in>set ys. \<not> isspace c"
    and "91 \<notin> set xs \<union> set ys" "0xE2 \<notin> set xs \<union> set ys" "46 \<notin> set xs \<union> set ys"
  shows "clean_text U (xs @ 32 # ys) = xs @ 32 # ys"
proof (rule clean_text_fixed)
  show "single_spaced (xs @ 32 # ys)" using assms(3,4) by (rule single_spaced_two_words)
  show "\<not> has_citation U (xs @ 32 # ys)" using assms(5) by (intro no_bracket_no_citation) simp
  show "no_mojibake (xs @ 32 # ys)" using assms(6) by (intro no_mojibake_absent) simp
  show "dots_ok (xs @ 32 # ys)" using assms(7) by (intro dots_ok_absent) simp
  show "strip (xs @ 32 # ys) = xs @ 32 # ys"
    using assms(1-4) by (intro strip_id) (simp_all add: hd_append)
qed

lemma rx_sentence_end_nonspace: "s = [] \<or> \<not> isspace (hd s) \<Longrightarrow> rx_sentence_end p s = None"
  by (cases s) (auto simp: rx_sentence_end_def)

lemma sentence_split_word:
  "\<forall>c\<in>set xs. \<not> isspace c \<Longrightarrow> xs \<noteq> [] \<Longrightarrow>
   re_split rx_sentence_end p (xs @ ys) =
     (xs @ hd (re_split rx_sentence_end (Some (last xs)) ys)) #
       tl (re_split rx_sentence_end (Some (last xs)) ys)"
proof (induction xs arbitrary: p)
  case Nil
  then show ?case by simp
next
  case (Cons c cs)
  have none: "rx_sentence_end p (c # cs @ ys) = None"
    using Cons.prems by (intro rx_sentence_end_nonspace) simp
  show ?case
  proof (cases cs)
    case Nil
    obtain q qs where "re_split rx_sentence_end (Some c) ys = q # qs"
      using re_split_nonempty by (cases "re_split rx_sentence_end (Some c) ys") auto
    with Nil none show ?thesis by simp
  next
    case (Cons d ds)
    with Cons.prems
    have "re_split rx_sentence_end (Some c) (cs @ ys) =
       (cs @ hd (re_split rx_sentence_end (Some (last cs)) ys)) #
         tl (re_split rx_sentence_end (Some (last cs)) ys)"
      by (intro Cons.IH) simp_all
    with none Cons show ?thesis by simp
  qed
qed

lemma sentence_split_plain:
  "\<forall>c\<in>set s. \<not> isspace c \<Longrightarrow> re_split rx_sentence_end p s = [s]"
proof (rule re_split_id)
  fix q ys
  assume "\<forall>c\<in>set s. \<not> isspace c" "suffix ys s"
  then have "\<forall>c\<in>set ys. \<not> isspace c" by (meson set_mono_suffix subsetD)
  then show "rx_sentence_end q ys = None" by (intro rx_sentence_end_nonspace) (cases ys, auto)
qed

lemma sentence_split_two:
  assumes "xs \<noteq> []" "ys \<noteq> []" "\<forall>c\<in>set xs. \<not> isspace c" "\<forall>c\<in>set ys. \<not> isspace c"
    and "last xs = 33" "65 \<le> hd ys" "hd ys \<le> 90"
  shows "re_split rx_sentence_end p (xs @ 32 # ys) = [xs, ys]"
proof -
  obtain d ds where ys: "ys = d # ds" using assms(2) by (cases ys) auto
  with assms(4) have d: "\<not> isspace d" by simp
  have "rx_sentence_end (Some 33) (32 # ys) = Some 1"
    using assms(6,7) d unfolding ys by (simp add: rx_sentence_end_def isspace_def)
  then have "re_split rx_sentence_end (Some 33) (32 # ys) =
          [] # re_split rx_sentence_end (Some 32) ys" by simp
  also have "re_split rx_sentence_end (Some 32) ys = [ys]"
    using assms(4) by (rule sentence_split_plain)
  finally have "re_split rx_sentence_end (Some (last xs)) (32 # ys) = [[], ys]"
    by (simp add: assms(5))
  with sentence_split_word[OF assms(3,1), of p "32 # ys"] show ?thesis by simp
qed

lemma paragraph_id: "10 \<notin> set s \<Longrightarrow> re_split rx_paragraph_break p s = [s]"
proof (rule re_split_id)
  fix q ys
  assume "10 \<notin> set s" "suffix ys s"
  then have "10 \<notin> set ys" by (meson set_mono_suffix subsetD)
  then show "rx_paragraph_break q ys = None" by (cases ys) (auto simp: rx_paragraph_break_def)
qed

lemma restore_dots_id: "60 \<notin> set s \<Longrightarrow> restore_dots s = s"
  unfolding restore_dots_def
proof (rule re_sub_id)
  fix q ys
  assume "60 \<notin> set s" "suffix ys s"
  then have "60 \<notin> set ys" by (meson set_mono_suffix subsetD)
  then show "rx_literal (ustr ''<DOT>'') q ys = None"
    by (cases ys) (auto simp: rx_literal_def ustr_def)
qed

lemma plain_sentence:
  assumes "s \<noteq> []" "\<forall>c\<in>set s. \<not> isspace c" "60 \<notin> set s"
  shows "concat (map (\<lambda>part. if strip part \<noteq> [] then [strip (restore_dots part)] else [])
           (re_split rx_paragraph_break None s)) = [s]"
proof -
  have "isspace 10" by (simp add: isspace_def)
  with assms(2) have "10 \<notin> set s" by blast
  then have 1: "re_split rx_paragraph_break None s = [s]" by (rule paragraph_id)
  have 2: "strip s = s" using assms(1,2) by (intro strip_id) simp_all
  show ?thesis using assms(1,3) by (simp add: 1 2 restore_dots_id)
qed

lemma split_two_words:
  assumes "xs \<noteq> []" "ys \<noteq> []" "\<forall>c\<in>set xs. \<not> isspace c" "\<forall>c\<in>set ys. \<not> isspace c"
    and "last xs = 33" "65 \<le> hd ys" "hd ys \<le> 90"
    and "46 \<notin> set xs \<union> set ys" "60 \<notin> set xs \<union> set ys"
  shows "improved_sentence_split U (xs @ 32 # ys) = [xs, ys]"
proof -
  have "protect_abbreviations U (xs @ 32 # ys) = xs @ 32 # ys"
    using assms(8) by (intro protect_no_dot) simp
  moreover have "re_split rx_sentence_end None (xs @ 32 # ys) = [xs, ys]"
    using assms(1-7) by (rule sentence_split_two)
  ultimately show ?thesis
    using assms(1-4,9) by (simp add: improved_sentence_split_def plain_sentence)
qed

lemma short_sentence_tokens: "count_tokens (init_database None) short_sentence = 50"
  by (simp add: count_tokens_def init_database_def short_sentence_def ustr_def)

lemma long_sentence_tokens: "count_tokens (init_database None) long_sentence = 400"
  by (simp add: count_tokens_def init_database_def long_sentence_def ustr_def)

lemma two_sentences:
  "improved_sentence_split U (clean_text U (short_sentence @ ustr '' '' @ long_sentence)) =
   [short_sentence, long_sentence]"
proof -
  have t: "short_sentence @ ustr '' '' @ long_sentence = short_sentence @ 32 # long_sentence"
    by (simp add: ustr_def)
  have "clean_text U (short_sentence @ 32 # long_sentence) = short_sentence @ 32 # long_sentence"
    by (rule clean_text_two_words)
       (simp_all add: short_sentence_def long_sentence_def ustr_def isspace_def)
  moreover have "improved_sentence_split U (short_sentence @ 32 # long_sentence) =
      [short_sentence, long_sentence]"
    by (rule split_two_words)
       (simp_all add: short_sentence_def long_sentence_def ustr_def isspace_def)
  ultimately show ?thesis by (simp add: t)
qed






section \<open>The overlap seed and the running token total\<close>

lemma tokens_of_Cons: "tokens_of self (x # b) = tokens_of self b + count_tokens self x"
  by (simp add: tokens_of_def)

lemma overlap_loop_sum:
  "overlap_loop self xs (ov, tokens_of self ov) = (ov', ot') \<Longrightarrow> ot' = tokens_of self ov'"
proof (induction xs arbitrary: ov)
  case Nil
  then show ?case by auto
next
  case (Cons x xs)
  show ?case
  proof (cases "tokens_of self ov + count_tokens self x \<le> OVERLAP_TOKENS self")
    case True
    with Cons.prems
    have "overlap_loop self xs (x # ov, tokens_of self (x # ov)) = (ov', ot')"
      by (simp add: Let_def tokens_of_Cons)
    then show ?thesis by (rule Cons.IH)
  next
    case False
    with Cons.prems show ?thesis by (auto simp add: Let_def)
  qed
qed

lemma overlap_of_sum: "overlap_of self b = (ov, ot) \<Longrightarrow> ot = tokens_of self ov"
  unfolding overlap_of_def using overlap_loop_sum[of self "rev b" "[]" ov ot]
  by (simp add: tokens_of_def)

lemma overlap_loop_take:
  "overlap_loop self xs (ov, ot) = (ov', ot') \<Longrightarrow> \<exists>k. ov' = rev (take k xs) @ ov"
proof (induction xs arbitrary: ov ot)
  case Nil
  then show ?case by simp
next
  case (Cons x xs)
  show ?case
  proof (cases "ot + count_tokens self x \<le> OVERLAP_TOKENS self")
    case True
    with Cons.prems have "overlap_loop self xs (x # ov, ot + count_tokens self x) = (ov', ot')"
      by (simp add: Let_def)
    from Cons.IH[OF this] obtain k where "ov' = rev (take k xs) @ x # ov" by blast
    then have "ov' = rev (take (Suc k) (x # xs)) @ ov" by simp
    then show ?thesis by blast
  next
    case False
    with Cons.prems have "ov' = ov" by (simp add: Let_def)
    then have "ov' = rev (take 0 (x # xs)) @ ov" by simp
    then show ?thesis by blast
  qed
qed

lemma overlap_of_suffix: "suffix (fst (overlap_of self b)) b"
proof -
  obtain ov ot where e: "overlap_of self b = (ov, ot)" by (cases "overlap_of self b")
  then obtain k where "ov = rev (take k (rev b)) @ []"
    unfolding overlap_of_def using overlap_loop_take by blast
  then have "ov = drop (length b - k) b" by (simp add: rev_take)
  then show ?thesis using e by (simp add: suffix_drop)
qed

lemma overlap_loop_greedy:
  "overlap_loop self xs (ov, tokens_of self ov) = (ov', ot') \<Longrightarrow>
   \<exists>k\<le>length xs. ov' = rev (take k xs) @ ov \<and>
     (k = length xs \<or> tokens_of self (xs ! k # ov') > OVERLAP_TOKENS self) \<and>
     (k = 0 \<or> tokens_of self ov' \<le> OVERLAP_TOKENS self)"
proof (induction xs arbitrary: ov)
  case Nil
  then show ?case by auto
next
  case (Cons x xs)
  show ?case
  proof (cases "tokens_of self ov + count_tokens self x \<le> OVERLAP_TOKENS self")
    case True
    with Cons.prems
    have run: "overlap_loop self xs (x # ov, tokens_of self (x # ov)) = (ov', ot')"
      by (simp add: Let_def tokens_of_Cons)
    from Cons.IH[OF run] obtain k where k: "k \<le> length xs" "ov' = rev (take k xs) @ x # ov"
      "k = length xs \<or> tokens_of self (xs ! k # ov') > OVERLAP_TOKENS self"
      "k = 0 \<or> tokens_of self ov' \<le> OVERLAP_TOKENS self"
      by blast
    have "tokens_of self ov' \<le> OVERLAP_TOKENS self"
    proof (cases "k = 0")
      case True
      with k(2) have "ov' = x # ov" by simp
      with \<open>tokens_of self ov + count_tokens self x \<le> OVERLAP_TOKENS self\<close>
      show ?thesis by (simp add: tokens_of_Cons)
    next
      case False
      with k(4) show ?thesis by simp
    qed
    with k have "Suc k \<le> length (x # xs) \<and> ov' = rev (take (Suc k) (x # xs)) @ ov \<and>
        (Suc k = length (x # xs) \<or> tokens_of self ((x # xs) ! Suc k # ov') > OVERLAP_TOKENS self) \<and>
        (Suc k = 0 \<or> tokens_of self ov' \<le> OVERLAP_TOKENS self)"
      by simp
    then show ?thesis by blast
  next
    case False
    with Cons.prems have "ov' = ov" by (auto simp: Let_def)
    with False have "0 \<le> length (x # xs) \<and> ov' = rev (take 0 (x # xs)) @ ov \<and>
        (0 = length (x # xs) \<or> tokens_of self ((x # xs) ! 0 # ov') > OVERLAP_TOKENS self) \<and>
        (0 = (0::nat) \<or> tokens_of self ov' \<le> OVERLAP_TOKENS self)"
      by (simp add: tokens_of_Cons)
    then show ?thesis by blast
  qed
qed

text \<open>
  The seed is the run of trailing sentences collected backward while the running total
  stays within \<open>OVERLAP_TOKENS\<close>: it is a suffix of the buffer, its total is within the
  budget unless it is empty, and it is the whole buffer or the sentence before it would
  exceed the budget.
\<close>

lemma overlap_of_greedy:
  "suffix (fst (overlap_of self b)) b \<and>
   (fst (overlap_of self b) = [] \<or>
      tokens_of self (fst (overlap_of self b)) \<le> OVERLAP_TOKENS self) \<and>
   (fst (overlap_of self b) = b \<or>
      (\<exists>pre x. b = pre @ x # fst (overlap_of self b) \<and>
         tokens_of self (x # fst (overlap_of self b)) > OVERLAP_TOKENS self))"
proof -
  obtain ov ot where e: "overlap_loop self (rev b) ([], tokens_of self []) = (ov, ot)"
    by (cases "overlap_loop self (rev b) ([], tokens_of self [])")
  then have seed: "fst (overlap_of self b) = ov" by (simp add: overlap_of_def tokens_of_def)
  from overlap_loop_greedy[OF e] obtain k where k: "k \<le> length b" "ov = rev (take k (rev b))"
    "k = length b \<or> tokens_of self (rev b ! k # ov) > OVERLAP_TOKENS self"
    "k = 0 \<or> tokens_of self ov \<le> OVERLAP_TOKENS self"
    by auto
  from k(2) have ov: "ov = drop (length b - k) b" by (simp add: rev_take)
  have 2: "ov = [] \<or> tokens_of self ov \<le> OVERLAP_TOKENS self" using k(4) ov by auto
  have 3: "ov = b \<or> (\<exists>pre x. b = pre @ x # ov \<and> tokens_of self (x # ov) > OVERLAP_TOKENS self)"
  proof (cases "k = length b")
    case True
    with ov show ?thesis by simp
  next
    case False
    with k(1) have lt: "k < length b" by simp
    then have i: "length b - Suc k < length b" by simp
    have "rev b ! k = b ! (length b - Suc k)" using lt by (simp add: rev_nth)
    moreover have "b = take (length b - Suc k) b @ b ! (length b - Suc k) # drop (Suc (length b - Suc k)) b"
      using i by (simp only: id_take_nth_drop[symmetric])
    moreover have "Suc (length b - Suc k) = length b - k" using lt by simp
    ultimately have "b = take (length b - Suc k) b @ rev b ! k # ov" using ov by simp
    moreover have "tokens_of self (rev b ! k # ov) > OVERLAP_TOKENS self" using k(3) False by simp
    ultimately show ?thesis by blast
  qed
  show ?thesis unfolding seed using ov 2 3 by (simp add: suffix_drop)
qed


lemma scan_Nil: "scan self [] = scan_init"
  by (simp add: scan_def)

lemma scan_snoc: "scan self (ss @ [s]) = scan_step self (scan self ss) s"
  by (simp add: scan_def)

lemma scan_step_tokens:
  assumes "current_tokens st = tokens_of self (current_sentences st)"
  shows "current_tokens (scan_step self st s) = tokens_of self (current_sentences (scan_step self st s))"
proof -
  obtain ov ot where e: "overlap_of self (current_sentences st) = (ov, ot)"
    by (cases "overlap_of self (current_sentences st)")
  have "ot = tokens_of self ov" using e by (rule overlap_of_sum)
  with assms e show ?thesis
    by (simp add: scan_step_def Let_def tokens_of_def)
qed

text \<open>
  Claim C8. At the start of every iteration of the scan, that is after any number \<open>i\<close> of
  sentences has been processed, \<open>current_tokens\<close> is the sum of the token counts of the
  sentences in \<open>current_sentences\<close>.
\<close>

theorem scan_tokens_invariant:
  "current_tokens (scan self (take i sentences)) =
   sum_list (map (count_tokens self) (current_sentences (scan self (take i sentences))))"
proof -
  have "current_tokens (scan self ss) = tokens_of self (current_sentences (scan self ss))" for ss
  proof (induction ss rule: rev_induct)
    case Nil
    show ?case by (simp add: scan_Nil scan_init_def tokens_of_def)
  next
    case (snoc s ss)
    then show ?case by (simp only: scan_snoc scan_step_tokens)
  qed
  then show ?thesis by (simp add: tokens_of_def)
qed

section \<open>The scan over the sentences\<close>

lemma scan_step_cases:
  obtains
    (skip) "oversized self s" "scan_step self st s = st"
  | (flush) "\<not> oversized self s" "current_sentences st \<noteq> []"
      "scan_step self st s =
         \<lparr>chunks = chunks st @ [join_sp (current_sentences st)],
          current_sentences = fst (overlap_of self (current_sentences st)) @ [s],
          current_tokens = snd (overlap_of self (current_sentences st)) + count_tokens self s,
          chunk_sentences = chunk_sentences st @ [current_sentences st]\<rparr>"
  | (append) "\<not> oversized self s"
      "scan_step self st s =
         st\<lparr>current_sentences := current_sentences st @ [s],
            current_tokens := current_tokens st + count_tokens self s\<rparr>"
  by (cases "oversized self s";
      cases "current_tokens st + count_tokens self s > MAX_TOKENS_PER_CHUNK self \<and>
             current_sentences st \<noteq> []")
     (auto simp: scan_step_def oversized_def Let_def split: prod.splits)

lemma scan_finish_sentences:
  "chunk_sentences (scan_finish st) =
     chunk_sentences st @ (if current_sentences st \<noteq> [] then [current_sentences st] else [])"
  by (simp add: scan_finish_def)

lemma scan_finish_chunks:
  "chunks (scan_finish st) =
     chunks st @ (if current_sentences st \<noteq> [] then [join_sp (current_sentences st)] else [])"
  by (simp add: scan_finish_def)

text \<open>The emitted chunk texts are the joins of the recorded buffers.\<close>

lemma scan_chunks_join: "chunks (scan self ss) = map join_sp (chunk_sentences (scan self ss))"
proof (induction ss rule: rev_induct)
  case Nil
  show ?case by (simp add: scan_Nil scan_init_def)
next
  case (snoc s ss)
  show ?case
    by (cases self s "scan self ss" rule: scan_step_cases) (simp_all add: snoc scan_snoc)
qed

text \<open>Every buffer holds sentences of the input that are not oversized, and every emitted
  buffer is non-empty.\<close>

lemma scan_buffers_from_input:
  "(\<forall>b\<in>set (chunk_sentences (scan self ss)). b \<noteq> [] \<and> (\<forall>s\<in>set b. s \<in> set ss \<and> \<not> oversized self s)) \<and>
   (\<forall>s\<in>set (current_sentences (scan self ss)). s \<in> set ss \<and> \<not> oversized self s)"
proof (induction ss rule: rev_induct)
  case Nil
  show ?case by (simp add: scan_Nil scan_init_def)
next
  case (snoc s ss)
  have sub: "set (fst (overlap_of self b)) \<subseteq> set b" for b
    using overlap_of_suffix[of self b] by (rule set_mono_suffix)
  show ?case
  proof (cases self s "scan self ss" rule: scan_step_cases)
    case skip
    with snoc show ?thesis by (auto simp: scan_snoc)
  next
    case flush
    with snoc sub[of "current_sentences (scan self ss)"] show ?thesis by (auto simp: scan_snoc)
  next
    case append
    with snoc show ?thesis by (auto simp: scan_snoc)
  qed
qed


text \<open>Each buffer after the first starts with the seed of the buffer before it.\<close>

lemma scan_follows_seed:
  "successively (follows_seed self)
     (chunk_sentences (scan self ss) @ [current_sentences (scan self ss)]) \<and>
   (current_sentences (scan self ss) = [] \<longrightarrow> chunk_sentences (scan self ss) = [])"
proof (induction ss rule: rev_induct)
  case Nil
  show ?case by (simp add: scan_Nil scan_init_def)
next
  case (snoc x ss)
  let ?st = "scan self ss"
  show ?case
  proof (cases self x ?st rule: scan_step_cases)
    case skip
    with snoc show ?thesis by (simp add: scan_snoc)
  next
    case flush
    have "follows_seed self (current_sentences ?st) (fst (overlap_of self (current_sentences ?st)) @ [x])"
      by (simp add: follows_seed_def)
    with snoc flush show ?thesis
      by (simp add: successively_append_iff scan_snoc)
  next
    case append
    have ext: "follows_seed self b (current_sentences ?st) \<Longrightarrow>
               follows_seed self b (current_sentences ?st @ [x])" for b
      by (auto simp: follows_seed_def)
    from snoc append ext show ?thesis
      by (auto simp: successively_append_iff scan_snoc)
  qed
qed

lemma finish_buffers:
  "b \<in> set (chunk_sentences (scan_finish (scan self ss))) \<Longrightarrow>
   b \<noteq> [] \<and> (\<forall>s\<in>set b. s \<in> set ss \<and> \<not> oversized self s)"
  using scan_buffers_from_input[of self ss]
  by (auto simp: scan_finish_sentences split: if_splits)

lemma finish_chunks_join:
  "chunks (scan_finish (scan self ss)) = map join_sp (chunk_sentences (scan_finish (scan self ss)))"
  by (simp add: scan_finish_chunks scan_finish_sentences scan_chunks_join)


lemma finish_follows_seed:
  "successively (follows_seed self) (chunk_sentences (scan_finish (scan self ss)))"
  using scan_follows_seed[of self ss] by (auto simp: scan_finish_sentences)


text \<open>The filter at the end of \<open>_smart_chunk_text\<close> removes nothing: a chunk is the join of
  a non-empty buffer of sentences, and a sentence of the splitter is never blank.\<close>

lemma smart_chunk_text_buffers:
  "smart_chunk_text U self text = map join_sp (chunk_buffers U self text)"
proof -
  let ?ss = "improved_sentence_split U (clean_text U text)"
  let ?bs = "chunk_sentences (scan_finish (scan self ?ss))"
  have keep: "strip (join_sp b) \<noteq> []" if "b \<in> set ?bs" for b
  proof -
    from finish_buffers[OF that] have "b \<noteq> []" and "\<forall>s\<in>set b. s \<in> set ?ss" by auto
    then have "\<exists>c\<in>set (join_sp b). \<not> isspace c"
      by (intro join_sp_nonblank) (auto dest: split_nonblank)
    then show ?thesis by (simp add: strip_nonempty_iff)
  qed
  then have "filter (\<lambda>chunk. strip chunk \<noteq> []) (map join_sp ?bs) = map join_sp ?bs"
    by (simp add: filter_map o_def)
  moreover have "?ss = [] \<Longrightarrow> ?bs = []"
    by (simp add: scan_Nil scan_init_def scan_finish_def)
  ultimately show ?thesis
    by (simp add: smart_chunk_text_def chunk_buffers_def Let_def finish_chunks_join)
qed

section \<open>The chunks of a text\<close>

text \<open>
  Claim C2. The chunks of a text are the joins of the recorded sentence buffers, and for
  every \<open>k\<close> the buffer of chunk \<open>k + 1\<close> starts with the overlap seed computed from the
  buffer of chunk \<open>k\<close>, followed by at least one more sentence. The seed is a suffix of
  buffer \<open>k\<close> (so its sentences are in their original order), its token total is within
  \<open>OVERLAP_TOKENS\<close> unless it is empty, and it is maximal: it is the whole buffer, or
  taking the sentence before it as well would exceed \<open>OVERLAP_TOKENS\<close>.
\<close>

theorem overlap_seed_leads_next_chunk:
  "smart_chunk_text U self text = map join_sp (chunk_buffers U self text) \<and>
   (\<forall>k. Suc k < length (chunk_buffers U self text) \<longrightarrow>
      (let b = chunk_buffers U self text ! k;
           b' = chunk_buffers U self text ! Suc k;
           seed = fst (overlap_of self b)
       in (\<exists>rest. rest \<noteq> [] \<and> b' = seed @ rest) \<and>
          suffix seed b \<and>
          (seed = [] \<or> tokens_of self seed \<le> OVERLAP_TOKENS self) \<and>
          (seed = b \<or>
             (\<exists>pre x. b = pre @ x # seed \<and> tokens_of self (x # seed) > OVERLAP_TOKENS self))))"
proof -
  have "successively (follows_seed self) (chunk_buffers U self text)"
    unfolding chunk_buffers_def by (rule finish_follows_seed)
  then have "follows_seed self (chunk_buffers U self text ! k) (chunk_buffers U self text ! Suc k)"
    if "Suc k < length (chunk_buffers U self text)" for k
    using that by (rule successively_nth)
  then show ?thesis
    using overlap_of_greedy[of self]
    by (simp add: smart_chunk_text_buffers follows_seed_def Let_def)
qed

theorem overlap_seed_leads_next_chunk_witness:
  "Suc 0 < length (chunk_buffers ascii_db
       \<lparr>MAX_TOKENS_PER_CHUNK = 6, OVERLAP_TOKENS = 2, tokenizer = None\<rparr>
       (ustr ''Good morning all! See you! Take care now!'')) \<and>
   chunk_buffers ascii_db \<lparr>MAX_TOKENS_PER_CHUNK = 6, OVERLAP_TOKENS = 2, tokenizer = None\<rparr>
       (ustr ''Good morning all! See you! Take care now!'') ! Suc 0 =
     fst (overlap_of \<lparr>MAX_TOKENS_PER_CHUNK = 6, OVERLAP_TOKENS = 2, tokenizer = None\<rparr>
       (chunk_buffers ascii_db \<lparr>MAX_TOKENS_PER_CHUNK = 6, OVERLAP_TOKENS = 2, tokenizer = None\<rparr>
         (ustr ''Good morning all! See you! Take care now!'') ! 0)) @ [ustr ''Take care now!''] \<and>
   smart_chunk_text ascii_db \<lparr>MAX_TOKENS_PER_CHUNK = 6, OVERLAP_TOKENS = 2, tokenizer = None\<rparr>
       (ustr ''Good morning all! See you! Take care now!'') =
     [ustr ''Good morning all! See you!'', ustr ''See you! Take care now!'']"
  using overlap_seed_leads_next_chunk
    [of ascii_db "\<lparr>MAX_TOKENS_PER_CHUNK = 6, OVERLAP_TOKENS = 2, tokenizer = None\<rparr>"
        "ustr ''Good morning all! See you! Take care now!''"]
  unfolding ex1_buffers
  by (simp add: overlap_of_def count_tokens_def ustr_def)


subsection \<open>The run with the tokenizer's exception\<close>

lemma overlap_loop_raising_eq:
  "\<forall>s\<in>set xs. \<not> raises_on raises self s \<Longrightarrow>
   overlap_loop_raising raises self xs acc = Inr (overlap_loop self xs acc)"
proof (induction xs arbitrary: acc)
  case Nil
  show ?case by (cases acc) simp
next
  case (Cons x xs)
  obtain ov ot where acc: "acc = (ov, ot)" by (cases acc)
  from Cons.prems have x: "\<not> raises_on raises self x" and xs: "\<forall>s\<in>set xs. \<not> raises_on raises self s"
    by simp_all
  show ?case unfolding acc
    by (simp add: count_tokens_raising_eq x Let_def Cons.IH[OF xs])
qed

lemma scan_step_raising_eq:
  assumes "\<forall>x\<in>set (current_sentences st). \<not> raises_on raises self x"
  shows "scan_step_raising raises self st s =
           (if raises_on raises self s then Inl ValueError else Inr (scan_step self st s))"
proof -
  have "overlap_loop_raising raises self (rev (current_sentences st)) ([], 0) =
        Inr (overlap_of self (current_sentences st))"
    unfolding overlap_of_def using assms by (intro overlap_loop_raising_eq) simp
  then show ?thesis
    by (simp add: scan_step_raising_def scan_step_def count_tokens_raising_eq Let_def
        split: prod.splits)
qed

lemma scan_step_current:
  "set (current_sentences (scan_step self st s)) \<subseteq> set (current_sentences st) \<union> {s}"
proof -
  have sub: "set (fst (overlap_of self (current_sentences st))) \<subseteq> set (current_sentences st)"
    using overlap_of_suffix[of self "current_sentences st"] by (rule set_mono_suffix)
  show ?thesis
    by (cases rule: scan_step_cases[where self=self and s=s and st=st]) (use sub in auto)
qed

lemma scan_raising_eq:
  "\<forall>x\<in>set (current_sentences st). \<not> raises_on raises self x \<Longrightarrow>
   scan_raising raises self st ss =
     (if \<exists>s\<in>set ss. raises_on raises self s then Inl ValueError
      else Inr (foldl (scan_step self) st ss))"
proof (induction ss arbitrary: st)
  case Nil
  show ?case by simp
next
  case (Cons s ss)
  show ?case
  proof (cases "raises_on raises self s")
    case True
    with Cons.prems show ?thesis by (simp add: scan_step_raising_eq)
  next
    case False
    have "\<forall>x\<in>set (current_sentences (scan_step self st s)). \<not> raises_on raises self x"
      using scan_step_current[of self st s] Cons.prems False by auto
    from Cons.IH[OF this] False Cons.prems show ?thesis
      by (simp add: scan_step_raising_eq)
  qed
qed

lemma sum_tokens_raising_eq:
  "sum_tokens_raising raises self cs =
     (if \<exists>c\<in>set cs. raises_on raises self c then Inl ValueError
      else Inr (sum_list (map (count_tokens self) cs)))"
  by (induction cs) (auto simp: count_tokens_raising_eq)

text \<open>
  The run of \<open>_smart_chunk_text\<close> with the exception: it raises when \<open>encode\<close> raises on a
  sentence or on a finished chunk, and otherwise returns what \<open>smart_chunk_text\<close> gives.
\<close>

lemma smart_chunk_text_raising_eq:
  "smart_chunk_text_raising raises U self text =
     (if (\<exists>s\<in>set (improved_sentence_split U (clean_text U text)). raises_on raises self s) \<or>
         (\<exists>c\<in>set (smart_chunk_text U self text). raises_on raises self c)
      then Inl ValueError else Inr (smart_chunk_text U self text))"
proof -
  let ?ss = "improved_sentence_split U (clean_text U text)"
  show ?thesis
  proof (cases "?ss = []")
    case True
    then show ?thesis by (simp add: smart_chunk_text_raising_def smart_chunk_text_def)
  next
    case False
    have "scan_raising raises self scan_init ?ss =
        (if \<exists>s\<in>set ?ss. raises_on raises self s then Inl ValueError else Inr (scan self ?ss))"
      unfolding scan_def by (rule scan_raising_eq) (simp add: scan_init_def)
    moreover define vc where "vc = smart_chunk_text U self text"
    then have vc: "filter (\<lambda>chunk. strip chunk \<noteq> []) (chunks (scan_finish (scan self ?ss))) = vc"
      using False by (simp add: smart_chunk_text_def Let_def)
    ultimately have "smart_chunk_text_raising raises U self text =
        (if \<exists>s\<in>set ?ss. raises_on raises self s then Inl ValueError
         else if vc \<noteq> [] then
           (if \<exists>c\<in>set vc. raises_on raises self c then Inl ValueError else Inr vc)
         else Inr vc)"
      using False
      by (simp add: smart_chunk_text_raising_def Let_def sum_tokens_raising_eq)
    then show ?thesis unfolding vc_def[symmetric] by (cases "vc = []") auto
  qed
qed

text \<open>Whatever \<open>_smart_chunk_text\<close> returns is the value of \<open>smart_chunk_text\<close>.\<close>

lemma smart_chunk_text_raising_returns:
  "smart_chunk_text_raising raises U self text = Inr cs \<Longrightarrow> cs = smart_chunk_text U self text"
  by (simp add: smart_chunk_text_raising_eq split: if_splits)

subsection \<open>A sentence with a special token\<close>










subsection \<open>Sentences within the limit\<close>



subsection \<open>No overlap budget\<close>

lemma overlap_of_positive:
  assumes "OVERLAP_TOKENS self = 0" "\<forall>s\<in>set b. 0 < count_tokens self s"
  shows "overlap_of self b = ([], 0)"
proof (cases "rev b")
  case Nil
  then show ?thesis by (simp add: overlap_of_def)
next
  case (Cons x xs)
  then have "x \<in> set b" by (metis list.set_intros(1) set_rev)
  with assms(2) have "0 < count_tokens self x" by blast
  with assms(1) Cons show ?thesis by (simp add: overlap_of_def Let_def)
qed

lemma scan_partition:
  assumes "OVERLAP_TOKENS self = 0" "\<forall>s\<in>set ss. 0 < count_tokens self s"
  shows "concat (chunk_sentences (scan self ss)) @ current_sentences (scan self ss) =
         filter (\<lambda>s. \<not> oversized self s) ss"
  using assms(2)
proof (induction ss rule: rev_induct)
  case Nil
  show ?case by (simp add: scan_Nil scan_init_def)
next
  case (snoc x ss)
  let ?st = "scan self ss"
  from snoc have IH: "concat (chunk_sentences ?st) @ current_sentences ?st =
         filter (\<lambda>s. \<not> oversized self s) ss" by simp
  have "\<forall>s\<in>set (current_sentences ?st). 0 < count_tokens self s"
    using scan_buffers_from_input[of self ss] snoc.prems by auto
  with assms(1) have ov: "overlap_of self (current_sentences ?st) = ([], 0)"
    by (rule overlap_of_positive)
  show ?case
  proof (cases self x ?st rule: scan_step_cases)
    case skip
    with IH show ?thesis by (simp add: scan_snoc)
  next
    case flush
    with IH ov show ?thesis by (simp add: scan_snoc)
  next
    case append
    with IH show ?thesis by (simp add: scan_snoc)
  qed
qed

lemma zero_overlap_partition:
  assumes "OVERLAP_TOKENS self = 0"
    and "\<forall>s\<in>set (improved_sentence_split U (clean_text U text)). 0 < count_tokens self s"
  shows "concat (chunk_buffers U self text) =
           filter (\<lambda>s. count_tokens self s \<le> MAX_TOKENS_PER_CHUNK self)
             (improved_sentence_split U (clean_text U text)) \<and>
         (\<forall>b\<in>set (chunk_buffers U self text). fst (overlap_of self b) = [])"
proof -
  let ?ss = "improved_sentence_split U (clean_text U text)"
  have "concat (chunk_buffers U self text) =
        concat (chunk_sentences (scan self ?ss)) @ current_sentences (scan self ?ss)"
    by (simp add: chunk_buffers_def scan_finish_sentences)
  also have "\<dots> = filter (\<lambda>s. \<not> oversized self s) ?ss"
    using assms by (rule scan_partition)
  finally have 1: "concat (chunk_buffers U self text) =
           filter (\<lambda>s. count_tokens self s \<le> MAX_TOKENS_PER_CHUNK self) ?ss"
    by (simp add: oversized_def not_less)
  have "fst (overlap_of self b) = []" if "b \<in> set (chunk_buffers U self text)" for b
  proof -
    from that finish_buffers[of b self ?ss] assms(2)
    have "\<forall>s\<in>set b. 0 < count_tokens self s" by (auto simp: chunk_buffers_def)
    with assms(1) show ?thesis by (simp add: overlap_of_positive)
  qed
  with 1 show ?thesis by blast
qed

lemma overlap_loop_zero:
  assumes "OVERLAP_TOKENS self = 0"
  shows "overlap_loop self xs (ov, 0) = (ov', ot') \<Longrightarrow> \<forall>s\<in>set ov. count_tokens self s = 0 \<Longrightarrow>
         \<forall>s\<in>set ov'. count_tokens self s = 0"
proof (induction xs arbitrary: ov)
  case Nil
  then show ?case by auto
next
  case (Cons x xs)
  show ?case
  proof (cases "count_tokens self x \<le> 0")
    case True
    with count_tokens_nonneg[of self x] have z: "count_tokens self x = 0" by simp
    with Cons.prems(1) assms have "overlap_loop self xs (x # ov, 0) = (ov', ot')"
      by (simp add: Let_def)
    then show ?thesis by (rule Cons.IH) (use z Cons.prems(2) in auto)
  next
    case False
    with Cons.prems assms show ?thesis by (auto simp: Let_def)
  qed
qed

lemma overlap_of_zero:
  assumes "OVERLAP_TOKENS self = 0" "s \<in> set (fst (overlap_of self b))"
  shows "count_tokens self s = 0"
proof -
  obtain ov ot where e: "overlap_loop self (rev b) ([], 0) = (ov, ot)"
    by (cases "overlap_loop self (rev b) ([], 0)")
  from overlap_loop_zero[OF assms(1) e] have "\<forall>s\<in>set ov. count_tokens self s = 0" by simp
  with assms(2) e show ?thesis by (simp add: overlap_of_def)
qed

text \<open>
  Claim C5 does not hold as stated. With \<open>OVERLAP_TOKENS = 0\<close> the seed loop still takes
  every trailing sentence whose token count is 0, and under the fallback estimate a
  sentence of fewer than four code points counts as 0 tokens: \<open>Oh!\<close> ends the first chunk
  and starts the second.
\<close>

theorem zero_overlap_shares_sentence:
  "OVERLAP_TOKENS \<lparr>MAX_TOKENS_PER_CHUNK = 6, OVERLAP_TOKENS = 0, tokenizer = None\<rparr> = 0 \<and>
   smart_chunk_text ascii_db \<lparr>MAX_TOKENS_PER_CHUNK = 6, OVERLAP_TOKENS = 0, tokenizer = None\<rparr>
     (ustr ''Good morning all! Oh! Take care now!'') =
     [ustr ''Good morning all! Oh!'', ustr ''Oh! Take care now!''] \<and>
   chunk_buffers ascii_db \<lparr>MAX_TOKENS_PER_CHUNK = 6, OVERLAP_TOKENS = 0, tokenizer = None\<rparr>
     (ustr ''Good morning all! Oh! Take care now!'') =
     [[ustr ''Good morning all!'', ustr ''Oh!''], [ustr ''Oh!'', ustr ''Take care now!'']] \<and>
   fst (overlap_of \<lparr>MAX_TOKENS_PER_CHUNK = 6, OVERLAP_TOKENS = 0, tokenizer = None\<rparr>
     [ustr ''Good morning all!'', ustr ''Oh!'']) = [ustr ''Oh!'']"
  unfolding smart_chunk_text_buffers chunk_buffers_def ex2_sentences
  by (simp add: scan_def scan_step_def scan_init_def scan_finish_def overlap_of_def
      count_tokens_def ustr_def)

text \<open>
  Claim C5, amended. With \<open>OVERLAP_TOKENS = 0\<close> every sentence of an overlap seed has token
  count 0; and when every sentence of the text has a positive token count, the seed of
  every chunk is empty and the buffers of the chunks, put end to end, are exactly the
  sentences that are not oversized, in order: no sentence occurrence is in two chunks.
\<close>

theorem zero_overlap_shares_only_empty_sentences:
  assumes "OVERLAP_TOKENS self = 0"
  shows "(\<forall>b s. s \<in> set (fst (overlap_of self b)) \<longrightarrow> count_tokens self s = 0) \<and>
         ((\<forall>s\<in>set (improved_sentence_split U (clean_text U text)). 0 < count_tokens self s) \<longrightarrow>
            concat (chunk_buffers U self text) =
              filter (\<lambda>s. count_tokens self s \<le> MAX_TOKENS_PER_CHUNK self)
                (improved_sentence_split U (clean_text U text)) \<and>
            (\<forall>b\<in>set (chunk_buffers U self text). fst (overlap_of self b) = []))"
  using assms zero_overlap_partition[of self U "text"] overlap_of_zero[of self] by blast

theorem zero_overlap_shares_only_empty_sentences_witness:
  "OVERLAP_TOKENS \<lparr>MAX_TOKENS_PER_CHUNK = 6, OVERLAP_TOKENS = 0, tokenizer = None\<rparr> = 0 \<and>
   improved_sentence_split ascii_db
     (clean_text ascii_db (ustr ''Good morning all! See you! Take care now!'')) =
     [ustr ''Good morning all!'', ustr ''See you!'', ustr ''Take care now!''] \<and>
   map (count_tokens \<lparr>MAX_TOKENS_PER_CHUNK = 6, OVERLAP_TOKENS = 0, tokenizer = None\<rparr>)
     [ustr ''Good morning all!'', ustr ''See you!'', ustr ''Take care now!''] = [4, 2, 3] \<and>
   concat (chunk_buffers ascii_db \<lparr>MAX_TOKENS_PER_CHUNK = 6, OVERLAP_TOKENS = 0, tokenizer = None\<rparr>
     (ustr ''Good morning all! See you! Take care now!'')) =
     [ustr ''Good morning all!'', ustr ''See you!'', ustr ''Take care now!'']"
  using zero_overlap_shares_only_empty_sentences
    [of "\<lparr>MAX_TOKENS_PER_CHUNK = 6, OVERLAP_TOKENS = 0, tokenizer = None\<rparr>" ascii_db
        "ustr ''Good morning all! See you! Take care now!''"]
  unfolding ex1_sentences
  by (simp add: count_tokens_def ustr_def)

subsection \<open>A chunk beyond the limit\<close>

text \<open>
  Claim C1 fails on the code. The limit is checked before a sentence is appended, but not
  when a new chunk is started from the overlap seed and the sentence: a seed of 50 tokens
  and a sentence of 400 tokens, neither of them oversized, make a chunk of 450 tokens under
  the limit of 400. The text below is the two sentences separated by one space, with no
  tokenizer loaded and the constants that \<open>__init__\<close> assigns; the result is the same for
  every Unicode database. That no chunk holds an oversized sentence does hold
  (\<open>finish_buffers\<close>).
\<close>

theorem chunk_exceeds_limit:
  "improved_sentence_split U (clean_text U (short_sentence @ ustr '' '' @ long_sentence)) =
     [short_sentence, long_sentence] \<and>
   count_tokens (init_database None) short_sentence = 50 \<and>
   count_tokens (init_database None) long_sentence = 400 \<and>
   smart_chunk_text U (init_database None) (short_sentence @ ustr '' '' @ long_sentence) =
     [short_sentence, short_sentence @ ustr '' '' @ long_sentence] \<and>
   count_tokens (init_database None) (short_sentence @ ustr '' '' @ long_sentence) = 450 \<and>
   MAX_TOKENS_PER_CHUNK (init_database None) = 400"
proof -
  have ne: "short_sentence \<noteq> []" by (simp add: short_sentence_def ustr_def)
  have "chunk_buffers U (init_database None) (short_sentence @ ustr '' '' @ long_sentence) =
      [[short_sentence], [short_sentence, long_sentence]]"
    unfolding chunk_buffers_def two_sentences
    using short_sentence_tokens long_sentence_tokens
    by (simp add: scan_def scan_step_def scan_init_def scan_finish_def overlap_of_def
        init_database_def)
  then have "smart_chunk_text U (init_database None) (short_sentence @ ustr '' '' @ long_sentence) =
     [short_sentence, short_sentence @ ustr '' '' @ long_sentence]"
    by (simp add: smart_chunk_text_buffers ustr_def)
  moreover have "count_tokens (init_database None)
      (short_sentence @ ustr '' '' @ long_sentence) = 450"
    by (simp add: count_tokens_def init_database_def short_sentence_def long_sentence_def ustr_def)
  ultimately show ?thesis
    using two_sentences[of U] short_sentence_tokens long_sentence_tokens
    by (simp add: init_database_def)
qed

end
